theory Spec2Isabelle
  imports Complex_Main "HOL-Library.AList"
begin

section \<open>Python values: errors, indexing, dictionaries\<close>

text \<open>
  Every raise of the Python source is a branch of the model: a fallible function returns
  \<open>error + 'a\<close>, with \<open>Inl\<close> the exception that was raised.
\<close>

datatype error = IndexError | KeyError | ValueError | ZeroDivisionError | NotImplementedError

definition and_then :: "error + 'a \<Rightarrow> ('a \<Rightarrow> error + 'b) \<Rightarrow> error + 'b" where
  "and_then r f = (case r of Inl e \<Rightarrow> Inl e | Inr v \<Rightarrow> f v)"

fun map_res :: "('a \<Rightarrow> error + 'b) \<Rightarrow> 'a list \<Rightarrow> error + 'b list" where
  "map_res f [] = Inr []"
| "map_res f (x # xs) =
     and_then (f x) (\<lambda>y. and_then (map_res f xs) (\<lambda>ys. Inr (y # ys)))"

text \<open>
  A Python index into a sequence of length \<open>n\<close>: a negative index counts from the end,
  anything outside \<open>-n \<le> i < n\<close> raises IndexError.
\<close>

definition norm_axis :: "nat \<Rightarrow> int \<Rightarrow> error + nat" where
  "norm_axis n i =
     (let j = (if i < 0 then int n + i else i)
      in if 0 \<le> j \<and> j < int n then Inr (nat j) else Inl IndexError)"

definition py_nth :: "'a list \<Rightarrow> int \<Rightarrow> error + 'a" where
  "py_nth xs i = and_then (norm_axis (length xs) i) (\<lambda>j. Inr (xs ! j))"

text \<open>\<open>xs[i] = v\<close> on a Python list.\<close>

definition py_list_set :: "'a list \<Rightarrow> int \<Rightarrow> 'a \<Rightarrow> error + 'a list" where
  "py_list_set xs i v = and_then (norm_axis (length xs) i) (\<lambda>j. Inr (xs[j := v]))"

text \<open>\<open>range(a, b)\<close> and \<open>x % n\<close> on Python integers.\<close>

definition py_range :: "int \<Rightarrow> int \<Rightarrow> int list" where
  "py_range a b = [a..b - 1]"

definition py_mod :: "int \<Rightarrow> int \<Rightarrow> error + int" where
  "py_mod x n = (if n = 0 then Inl ZeroDivisionError else Inr (x mod n))"

text \<open>
  A Python dictionary keeps its keys in insertion order: an association list with
  distinct keys. \<open>d[k] = v\<close> is \<^const>\<open>AList.update\<close> (overwrite in place, or append),
  \<open>d.pop(k, None)\<close> is \<^const>\<open>AList.delete\<close>, \<open>d.get(k, dflt)\<close> is \<open>dict_get\<close>.
\<close>

type_synonym ('k, 'v) dict = "('k \<times> 'v) list"

definition dict_get :: "('k, 'v) dict \<Rightarrow> 'k \<Rightarrow> 'v \<Rightarrow> 'v" where
  "dict_get d k dflt = (case map_of d k of None \<Rightarrow> dflt | Some v \<Rightarrow> v)"

definition dict_set :: "('k, 'v) dict \<Rightarrow> 'k \<Rightarrow> 'v \<Rightarrow> ('k, 'v) dict" where
  "dict_set d k v = AList.update k v d"

definition dict_pop :: "('k, 'v) dict \<Rightarrow> 'k \<Rightarrow> ('k, 'v) dict" where
  "dict_pop d k = AList.delete k d"

section \<open>Collaborators of \<open>fermionic_core.py\<close>\<close>

subsection \<open>Symmetries\<close>

text \<open>
  The module defines \<open>Z2FermionicArray\<close> and \<open>U1FermionicArray\<close>; their charges are
  Python integers.
\<close>

datatype symmetry = Z2 | U1

text \<open>
  Modelled from the spec: \<open>symmetries.get_symmetry(...).parity\<close> is not among the sources.
  The spec gives \<open>parity(charge) -> {0,1}\<close>, the charge reduced to its even/odd class.
\<close>

fun parity :: "symmetry \<Rightarrow> int \<Rightarrow> int" where
  "parity Z2 q = q mod 2"
| "parity U1 q = q mod 2"

text \<open>
  Modelled from the spec: \<open>Symmetry.combine\<close> is not among the sources. The spec gives the
  group operation of the two-element group and of the integer group.
\<close>

fun combine :: "symmetry \<Rightarrow> int \<Rightarrow> int \<Rightarrow> int" where
  "combine Z2 p q = (p + q) mod 2"
| "combine U1 p q = p + q"

text \<open>The number of inversions of a sequence: pairs standing in descending order.\<close>

fun inversions :: "nat list \<Rightarrow> nat" where
  "inversions [] = 0"
| "inversions (x # xs) = length (filter (\<lambda>y. y < x) xs) + inversions xs"

text \<open>
  Modelled from the spec: \<open>symmetries.calc_phase_permutation\<close> is not among the sources.
  The spec: it returns \<open>-1\<close> iff the permutation \<open>axes\<close>, restricted to the subsequence of
  odd-parity axes, is an odd permutation; even-parity axes never contribute. A sequence
  of distinct axes is an odd permutation iff its number of inversions is odd. With the
  permutation omitted, the axes are reversed (\<open>perm=[ndim-1, ..., 0]\<close>, as the comment
  in \<open>conj\<close> says).
\<close>

definition calc_phase_permutation :: "int list \<Rightarrow> int list option \<Rightarrow> error + int" where
  "calc_phase_permutation parities perm =
     (let axes = (case perm of
                    None \<Rightarrow> rev (map int [0..<length parities])
                  | Some p \<Rightarrow> p)
      in and_then (map_res (norm_axis (length parities)) axes) (\<lambda>axs.
           Inr (if even (inversions (filter (\<lambda>ax. parities ! ax \<noteq> 0) axs))
                then 1 else - 1)))"

subsection \<open>Helpers of \<open>symmetric_core\<close>\<close>

text \<open>
  Modelled from the spec: \<open>symmetric_core.permuted\<close> is not among the sources. The spec
  has transpose remap every sector key and the axis order "by the same permutation";
  as for a dense transpose, entry \<open>i\<close> of the result is entry \<open>perm[i]\<close> of the argument.
\<close>

definition permuted :: "'a list \<Rightarrow> int list \<Rightarrow> error + 'a list" where
  "permuted it perm = map_res (py_nth it) perm"

text \<open>
  Modelled from the spec: \<open>symmetric_core.without\<close> is not among the sources. Its use in
  \<open>tensordot_fermionic\<close> (the uncontracted axes, in order) fixes it: the items of \<open>it\<close>
  that are not in \<open>remove\<close>.
\<close>

definition without :: "'a list \<Rightarrow> 'a list \<Rightarrow> 'a list" where
  "without it remove = filter (\<lambda>i. i \<notin> set remove) it"

subsection \<open>Dense blocks of the numeric backend\<close>

text \<open>
  Modelled from the spec: the numeric backend is external. A dense block is held as a
  list of terms (multi-index, number); the entry of the block at a multi-index is the sum
  of the terms listed there (\<open>block_at\<close>). The backend's conjugate, negation and
  transpose act term by term.
\<close>

type_synonym block = "(int list \<times> complex) list"

definition block_at :: "block \<Rightarrow> int list \<Rightarrow> complex" where
  "block_at b i = sum_list (map snd (filter (\<lambda>t. fst t = i) b))"

definition block_neg :: "block \<Rightarrow> block" where
  "block_neg b = map (\<lambda>(i, v). (i, - v)) b"

definition block_conj :: "block \<Rightarrow> block" where
  "block_conj b = map (\<lambda>(i, v). (i, cnj v)) b"

definition block_transpose :: "block \<Rightarrow> int list \<Rightarrow> error + block" where
  "block_transpose b axes =
     map_res (\<lambda>(i, v). and_then (permuted i axes) (\<lambda>j. Inr (j, v))) b"

text \<open>The backend's transpose with no axes given reverses the axes of the block.\<close>

definition block_reverse :: "block \<Rightarrow> block" where
  "block_reverse b = map (\<lambda>(i, v). (rev i, v)) b"

subsection \<open>BlockIndex and the array record\<close>

text \<open>
  Modelled from the spec: \<open>BlockIndex\<close> is not among the sources. The spec: a mapping
  charge \<open>\<rightarrow>\<close> dimension plus a flow bit; \<open>size_total\<close> is the sum of the dimensions;
  \<open>conj()\<close> flips the flow only.
\<close>

record blockindex =
  chargemap :: "(int, nat) dict"
  flow :: bool

definition size_total :: "blockindex \<Rightarrow> nat" where
  "size_total ix = sum_list (map snd (chargemap ix))"

definition index_conj :: "blockindex \<Rightarrow> blockindex" where
  "index_conj ix = ix\<lparr>flow := \<not> flow ix\<rparr>"

type_synonym sector = "int list"

text \<open>
  \<open>FermionicArray\<close>: the slots of \<open>SymmetricArray\<close> (indices, total charge, the
  dictionary of blocks), the class attribute \<open>symmetry\<close>, and \<open>_phases\<close>.
\<close>

record farray =
  symmetry :: symmetry
  indices :: "blockindex list"
  charge_total :: int
  blocks :: "(sector, block) dict"
  phases :: "(sector, int) dict"

text \<open>
  Modelled from the spec: the properties \<open>ndim\<close>, \<open>sectors\<close>, \<open>flows\<close> and \<open>size\<close> of
  \<open>SymmetricArray\<close> are not among the sources. \<open>ndim\<close> is the rank, \<open>sectors\<close> the keys
  of the block dictionary, \<open>flows\<close> the flow of each axis, and \<open>size\<close> the element count
  of the array, the product of the \<open>size_total\<close> of its axes.
\<close>

definition ndim :: "farray \<Rightarrow> nat" where
  "ndim x = length (indices x)"

definition sectors :: "farray \<Rightarrow> sector list" where
  "sectors x = map fst (blocks x)"

definition flows :: "farray \<Rightarrow> bool list" where
  "flows x = map flow (indices x)"

definition array_size :: "farray \<Rightarrow> nat" where
  "array_size x = prod_list (map size_total (indices x))"

text \<open>
  Modelled from the spec: \<open>SymmetricArray.transpose\<close> is not among the sources. The
  spec: it permutes the axis order, remaps every sector key by the same permutation, and
  permutes each block's dense axes identically; no value change. The new block
  dictionary is built key by key, in the order of the old one.
\<close>

fun transpose_blocks ::
  "(sector \<times> block) list \<Rightarrow> int list \<Rightarrow> (sector, block) dict \<Rightarrow> error + (sector, block) dict"
where
  "transpose_blocks [] axes acc = Inr acc"
| "transpose_blocks ((sector, array) # rest) axes acc =
     and_then (permuted sector axes) (\<lambda>k.
     and_then (block_transpose array axes) (\<lambda>t.
       transpose_blocks rest axes (dict_set acc k t)))"

definition symmetric_transpose :: "farray \<Rightarrow> int list \<Rightarrow> error + farray" where
  "symmetric_transpose new axes =
     and_then (permuted (indices new) axes) (\<lambda>ixs.
     and_then (transpose_blocks (blocks new) axes []) (\<lambda>bs.
       Inr (new\<lparr>indices := ixs, blocks := bs\<rparr>)))"

section \<open>\<open>FermionicArray\<close>\<close>

subsection \<open>\<open>transpose\<close>\<close>

text \<open>The loop over the sectors that computes the new sector phases (\<open>phase=True\<close>).\<close>

fun transpose_phases ::
  "symmetry \<Rightarrow> (sector, int) dict \<Rightarrow> int list \<Rightarrow> sector list \<Rightarrow> (sector, int) dict
     \<Rightarrow> error + (sector, int) dict"
where
  "transpose_phases symm old axes [] permuted_phases = Inr permuted_phases"
| "transpose_phases symm old axes (sector # rest) permuted_phases =
     and_then (calc_phase_permutation (map (parity symm) sector) (Some axes)) (\<lambda>perm_phase.
       let new_phase = dict_get old sector 1 * perm_phase
       in if new_phase = - 1
          then and_then (permuted sector axes) (\<lambda>k.
                 transpose_phases symm old axes rest (dict_set permuted_phases k (- 1)))
          else transpose_phases symm old axes rest permuted_phases)"

text \<open>The dictionary comprehension that only permutes the phase keys (\<open>phase=False\<close>).\<close>

fun rekey_phases ::
  "(sector \<times> int) list \<Rightarrow> int list \<Rightarrow> (sector, int) dict \<Rightarrow> error + (sector, int) dict"
where
  "rekey_phases [] axes acc = Inr acc"
| "rekey_phases ((sector, phase) # rest) axes acc =
     and_then (permuted sector axes) (\<lambda>k. rekey_phases rest axes (dict_set acc k phase))"

definition transpose :: "farray \<Rightarrow> int list option \<Rightarrow> bool \<Rightarrow> error + farray" where
  "transpose x axes_opt phase =
     (let new = x;
          axes = (case axes_opt of
                    None \<Rightarrow> rev (map int [0..<ndim new])
                  | Some axes \<Rightarrow> axes)
      in and_then
           (if phase
            then transpose_phases (symmetry new) (phases new) axes (sectors new) []
            else rekey_phases (phases new) axes [])
           (\<lambda>ps. symmetric_transpose (new\<lparr>phases := ps\<rparr>) axes))"

subsection \<open>\<open>phase_flip\<close>\<close>

fun phase_flip_loop ::
  "symmetry \<Rightarrow> int list \<Rightarrow> sector list \<Rightarrow> (sector, int) dict \<Rightarrow> error + (sector, int) dict"
where
  "phase_flip_loop symm axs [] new_phases = Inr new_phases"
| "phase_flip_loop symm axs (sector # rest) new_phases =
     and_then (map_res (\<lambda>ax. and_then (py_nth sector ax) (\<lambda>q. Inr (parity symm q))) axs)
       (\<lambda>ps.
          if sum_list ps mod 2 \<noteq> 0
          then (let new_phase = - dict_get new_phases sector 1
                in if new_phase = 1
                   then phase_flip_loop symm axs rest (dict_pop new_phases sector)
                   else phase_flip_loop symm axs rest (dict_set new_phases sector new_phase))
          else phase_flip_loop symm axs rest new_phases)"

definition phase_flip :: "farray \<Rightarrow> int list \<Rightarrow> error + farray" where
  "phase_flip x axs =
     (let new = x
      in if axs = [] then Inr new
         else and_then (phase_flip_loop (symmetry new) axs (sectors new) (phases new))
                (\<lambda>new_phases. Inr (new\<lparr>phases := new_phases\<rparr>)))"

subsection \<open>\<open>phase_resolve\<close>\<close>

text \<open>
  The loop \<open>while new._phases: sector, phase = new._phases.popitem() ...\<close>: \<open>popitem\<close>
  removes the entry inserted last; \<open>new._blocks[sector]\<close> raises KeyError for a sector
  that holds no block.
\<close>

function phase_resolve :: "farray \<Rightarrow> error + farray" where
  "phase_resolve new =
     (if phases new = [] then Inr new
      else (let sector = fst (last (phases new));
                phase = snd (last (phases new));
                popped = new\<lparr>phases := butlast (phases new)\<rparr>
            in if phase = - 1
               then (case map_of (blocks popped) sector of
                       None \<Rightarrow> Inl KeyError
                     | Some array \<Rightarrow>
                         phase_resolve
                           (popped\<lparr>blocks := dict_set (blocks popped) sector (block_neg array)\<rparr>))
               else phase_resolve popped))"
  by pat_completeness auto
termination
  by (relation "measure (\<lambda>new. length (phases new))") auto

declare phase_resolve.simps [simp del]

subsection \<open>\<open>phase_virtual_transpose\<close>\<close>

fun phase_virtual_transpose_loop ::
  "symmetry \<Rightarrow> int list option \<Rightarrow> sector list \<Rightarrow> (sector, int) dict \<Rightarrow> error + (sector, int) dict"
where
  "phase_virtual_transpose_loop symm axes [] ps = Inr ps"
| "phase_virtual_transpose_loop symm axes (sector # rest) ps =
     and_then (calc_phase_permutation (map (parity symm) sector) axes) (\<lambda>perm_phase.
       let phase_new = dict_get ps sector 1 * perm_phase
       in if phase_new = 1
          then phase_virtual_transpose_loop symm axes rest (dict_pop ps sector)
          else phase_virtual_transpose_loop symm axes rest (dict_set ps sector phase_new))"

definition phase_virtual_transpose :: "farray \<Rightarrow> int list option \<Rightarrow> error + farray" where
  "phase_virtual_transpose x axes =
     (let new = x
      in and_then (phase_virtual_transpose_loop (symmetry new) axes (sectors new) (phases new))
           (\<lambda>ps. Inr (new\<lparr>phases := ps\<rparr>)))"

subsection \<open>\<open>conj\<close> and \<open>dagger\<close>\<close>

text \<open>\<open>tuple(ax for ax, ix in enumerate(indices) if ix.flow)\<close>, and its negation.\<close>

definition axes_with_flow :: "bool \<Rightarrow> blockindex list \<Rightarrow> int list" where
  "axes_with_flow f ixs =
     map (\<lambda>(ax, ix). int ax) (filter (\<lambda>(ax, ix). flow ix = f) (zip [0..<length ixs] ixs))"

fun conj_loop ::
  "symmetry \<Rightarrow> bool \<Rightarrow> int list \<Rightarrow> (sector \<times> block) list \<Rightarrow> (sector, block) dict
     \<Rightarrow> (sector, int) dict \<Rightarrow> error + ((sector, block) dict \<times> (sector, int) dict)"
where
  "conj_loop symm phase axs_conj [] bs ps = Inr (bs, ps)"
| "conj_loop symm phase axs_conj ((sector, array) # rest) bs ps =
     (let bs' = dict_set bs sector (block_conj array)
      in if phase
         then (let parities = map (parity symm) sector
               in and_then (calc_phase_permutation parities None) (\<lambda>perm_phase.
                  and_then (map_res (py_nth parities) axs_conj) (\<lambda>qs.
                    let phase_new = dict_get ps sector 1 * perm_phase
                                      * (if sum_list qs mod 2 \<noteq> 0 then - 1 else 1)
                    in if phase_new = 1
                       then conj_loop symm phase axs_conj rest bs' (dict_pop ps sector)
                       else conj_loop symm phase axs_conj rest bs'
                              (dict_set ps sector phase_new))))
         else conj_loop symm phase axs_conj rest bs' ps)"

definition conj :: "farray \<Rightarrow> bool \<Rightarrow> error + farray" where
  "conj x phase =
     (let new = x;
          new_indices = map index_conj (indices new);
          axs_conj = axes_with_flow True new_indices
      in and_then
           (conj_loop (symmetry new) phase axs_conj (blocks new) (blocks new) (phases new))
           (\<lambda>(bs, ps). Inr (new\<lparr>indices := new_indices, blocks := bs, phases := ps\<rparr>)))"

fun dagger_loop ::
  "(sector \<times> block) list \<Rightarrow> (sector, int) dict \<Rightarrow> (sector, block) dict \<Rightarrow> (sector, int) dict
     \<Rightarrow> (sector, block) dict \<times> (sector, int) dict"
where
  "dagger_loop [] old new_blocks new_phases = (new_blocks, new_phases)"
| "dagger_loop ((sector, array) # rest) old new_blocks new_phases =
     (let new_sector = rev sector;
          new_phases' = (if dict_get old sector 1 = - 1
                         then dict_set new_phases new_sector (- 1) else new_phases)
      in dagger_loop rest (dict_pop old sector)
           (dict_set new_blocks new_sector (block_reverse (block_conj array))) new_phases')"

definition dagger :: "farray \<Rightarrow> bool \<Rightarrow> error + farray" where
  "dagger x phase =
     (let new = x;
          new_indices = map index_conj (rev (indices new));
          (new_blocks, new_phases) = dagger_loop (blocks new) (phases new) [] [];
          new' = new\<lparr>indices := new_indices, blocks := new_blocks, phases := new_phases\<rparr>
      in if phase then phase_flip new' (axes_with_flow True new_indices) else Inr new')"

subsection \<open>\<open>fuse\<close>\<close>

text \<open>\<open>perm.index(v)\<close>: the position of the first \<open>v\<close>, ValueError when there is none.\<close>

definition py_index :: "'a list \<Rightarrow> 'a \<Rightarrow> error + int" where
  "py_index xs v =
     (if v \<in> set xs then Inr (int (length (takeWhile (\<lambda>y. y \<noteq> v) xs))) else Inl ValueError)"

text \<open>\<open>for ax in group: if not new.indices[ax].flow: axes_flip.append(ax)\<close>\<close>

fun fuse_flips :: "blockindex list \<Rightarrow> int list \<Rightarrow> int list \<Rightarrow> error + int list" where
  "fuse_flips ixs [] axes_flip = Inr axes_flip"
| "fuse_flips ixs (ax # rest) axes_flip =
     and_then (py_nth ixs ax) (\<lambda>ix.
       fuse_flips ixs rest (if \<not> flow ix then axes_flip @ [ax] else axes_flip))"

text \<open>\<open>for axi, axj in zip(group, reversed(group)): virtual_perm[axi] = axj\<close>\<close>

fun fuse_reverse :: "(int \<times> int) list \<Rightarrow> int list \<Rightarrow> error + int list" where
  "fuse_reverse [] virtual_perm = Inr virtual_perm"
| "fuse_reverse ((axi, axj) # rest) virtual_perm =
     and_then (py_list_set virtual_perm axi axj) (fuse_reverse rest)"

text \<open>The loop over the groups, collecting \<open>axes_flip\<close> and \<open>virtual_perm\<close>.\<close>

fun fuse_groups ::
  "farray \<Rightarrow> int list list \<Rightarrow> int list \<Rightarrow> int list option \<Rightarrow> error + (int list \<times> int list option)"
where
  "fuse_groups new [] axes_flip virtual_perm = Inr (axes_flip, virtual_perm)"
| "fuse_groups new (grp # rest) axes_flip virtual_perm =
     (if grp \<noteq> []
      then and_then (py_nth (indices new) (hd grp)) (\<lambda>ix0.
             if flow ix0
             then and_then (fuse_flips (indices new) grp axes_flip) (\<lambda>axes_flip'.
                    let vp = (case virtual_perm of
                                None \<Rightarrow> map int [0..<ndim new]
                              | Some vp \<Rightarrow> vp)
                    in and_then (fuse_reverse (zip grp (rev grp)) vp) (\<lambda>vp'.
                         fuse_groups new rest axes_flip' (Some vp')))
             else fuse_groups new rest axes_flip virtual_perm)
      else fuse_groups new rest axes_flip virtual_perm)"

text \<open>
  \<open>calc_fuse_info\<close> and \<open>SymmetricArray.fuse\<close> are not among the sources. \<open>fuse\<close> takes
  them as parameters: \<open>fuse_perm\<close> stands for \<open>calc_fuse_info(axes_groups, flows)[2]\<close>, the
  permutation that makes the groups contiguous, and \<open>symmetric_fuse\<close> for the
  non-fermionic fuse that receives the resolved array and the renumbered groups.
  The \<open>print\<close> of the virtual permutation is not modelled.
\<close>

definition fuse ::
  "(int list list \<Rightarrow> bool list \<Rightarrow> int list) \<Rightarrow> (farray \<Rightarrow> int list list \<Rightarrow> error + 'r)
     \<Rightarrow> farray \<Rightarrow> int list list \<Rightarrow> error + 'r"
where
  "fuse fuse_perm symmetric_fuse x axes_groups =
     (let new = x;
          perm = fuse_perm axes_groups (flows new)
      in and_then (transpose new (Some perm) True) (\<lambda>new.
         and_then (map_res (map_res (py_index perm)) axes_groups) (\<lambda>axes_groups.
         and_then (fuse_groups new axes_groups [] None) (\<lambda>(axes_flip, virtual_perm).
         and_then (if axes_flip \<noteq> [] then phase_flip new axes_flip else Inr new) (\<lambda>new.
         and_then (case virtual_perm of
                     None \<Rightarrow> Inr new
                   | Some vp \<Rightarrow> phase_virtual_transpose new (Some vp)) (\<lambda>new.
         and_then (phase_resolve new) (\<lambda>new.
           symmetric_fuse new axes_groups)))))))"

definition unfuse :: "farray \<Rightarrow> int \<Rightarrow> error + farray" where
  "unfuse x axis = Inl NotImplementedError"

subsection \<open>The symmetric block contraction\<close>

text \<open>The items of a sequence at the positions not listed in \<open>axes\<close>, in order.\<close>

definition drop_axes :: "'a list \<Rightarrow> int list \<Rightarrow> 'a list" where
  "drop_axes xs axes =
     map snd (filter (\<lambda>(k, x). int k \<notin> set axes) (zip [0..<length xs] xs))"

text \<open>
  Modelled from the spec: the backend's contraction of two dense blocks is external. Each
  pair of terms that agree on the contracted positions gives the product, at the
  uncontracted positions of the first followed by those of the second; the sum of two
  blocks lists the terms of both. A list of terms carries no shape, so the failure of the
  backend on two blocks whose contracted axes differ in size is not part of this model:
  where a theorem below has a contraction return, it speaks of blocks that the backend
  accepts.
\<close>

definition block_tensordot :: "block \<Rightarrow> block \<Rightarrow> int list \<Rightarrow> int list \<Rightarrow> block" where
  "block_tensordot x y axes_x axes_y =
     concat (map (\<lambda>(i, v). concat (map (\<lambda>(j, w).
       if map (py_nth i) axes_x = map (py_nth j) axes_y
       then [(drop_axes i axes_x @ drop_axes j axes_y, v * w)] else []) y)) x)"

definition block_add :: "block \<Rightarrow> block \<Rightarrow> block" where
  "block_add x y = x @ y"

text \<open>
  Modelled from the spec: \<open>symmetric_core.tensordot_symmetric\<close> is not among the sources.
  The spec: for axis lists of equal length, sectors of \<open>a\<close> and \<open>b\<close> whose charges on the
  contracted axes match are paired, each pair contributes the block-level contraction,
  and the contributions are accumulated by sum into the output sector formed by the
  uncontracted charges of \<open>a\<close> then \<open>b\<close>; the output total charge is
  \<open>combine(a.charge_total, b.charge_total)\<close>; it fails with an argument error when the
  lists have unequal length or contain out-of-range indices. The result is a new array,
  whose phase map is empty from construction.
\<close>

definition tensordot_blocks ::
  "(sector \<times> block) list \<Rightarrow> (sector \<times> block) list \<Rightarrow> int list \<Rightarrow> int list \<Rightarrow> (sector, block) dict"
where
  "tensordot_blocks a_blocks b_blocks axes_a axes_b =
     fold (\<lambda>(sa, x). fold (\<lambda>(sb, y) acc.
            if map (py_nth sa) axes_a = map (py_nth sb) axes_b
            then (let k = drop_axes sa axes_a @ drop_axes sb axes_b;
                      t = block_tensordot x y axes_a axes_b
                  in dict_set acc k (case map_of acc k of
                                       None \<Rightarrow> t
                                     | Some u \<Rightarrow> block_add u t))
            else acc) b_blocks) a_blocks []"

definition tensordot_symmetric :: "farray \<Rightarrow> farray \<Rightarrow> int list \<times> int list \<Rightarrow> error + farray" where
  "tensordot_symmetric a b axes =
     (let axes_a = fst axes; axes_b = snd axes
      in if length axes_a = length axes_b
            \<and> list_all (\<lambda>ax. 0 \<le> ax \<and> ax < int (ndim a)) axes_a
            \<and> list_all (\<lambda>ax. 0 \<le> ax \<and> ax < int (ndim b)) axes_b
         then Inr \<lparr>symmetry = symmetry a,
                   indices = drop_axes (indices a) axes_a @ drop_axes (indices b) axes_b,
                   charge_total = combine (symmetry a) (charge_total a) (charge_total b),
                   blocks = tensordot_blocks (blocks a) (blocks b) axes_a axes_b,
                   phases = []\<rparr>
         else Inl ValueError)"

subsection \<open>\<open>tensordot_fermionic\<close>\<close>

text \<open>The \<open>axes\<close> argument: a single integer, or a pair of axis lists.\<close>

datatype axes_arg = AxesInt int | AxesPair "int list" "int list"

text \<open>The first step of \<open>tensordot_fermionic\<close>: parsing the \<open>axes\<close> argument.\<close>

definition tensordot_axes :: "nat \<Rightarrow> nat \<Rightarrow> axes_arg \<Rightarrow> error + (int list \<times> int list)" where
  "tensordot_axes ndim_a ndim_b axes =
     (case axes of
        AxesInt n \<Rightarrow> Inr (py_range (int ndim_a - n) (int ndim_a), py_range 0 n)
      | AxesPair axes_a axes_b \<Rightarrow>
          and_then (map_res (\<lambda>x. py_mod x (int ndim_a)) axes_a) (\<lambda>axes_a.
          and_then (map_res (\<lambda>x. py_mod x (int ndim_b)) axes_b) (\<lambda>axes_b.
            if \<not> (length axes_a = length axes_b) then Inl ValueError
            else Inr (axes_a, axes_b))))"

text \<open>\<open>tuple(ax for ax in axs if indices[ax].flow)\<close>, or \<open>if not indices[ax].flow\<close>.\<close>

fun axes_if_flow :: "bool \<Rightarrow> blockindex list \<Rightarrow> int list \<Rightarrow> error + int list" where
  "axes_if_flow f ixs [] = Inr []"
| "axes_if_flow f ixs (ax # rest) =
     and_then (py_nth ixs ax) (\<lambda>ix.
     and_then (axes_if_flow f ixs rest) (\<lambda>r.
       Inr (if flow ix = f then ax # r else r)))"

text \<open>The choice of the operand that takes the phase flips ("use reverse flows").\<close>

definition tensordot_flip ::
  "farray \<Rightarrow> farray \<Rightarrow> int list \<Rightarrow> int list \<Rightarrow> error + (farray \<times> farray)"
where
  "tensordot_flip a b new_axes_a new_axes_b =
     (if array_size a \<le> array_size b
      then and_then (axes_if_flow True (indices a) new_axes_a) (\<lambda>axs_flip.
           and_then (phase_flip a axs_flip) (\<lambda>a. Inr (a, b)))
      else and_then (axes_if_flow False (indices b) new_axes_b) (\<lambda>axs_flip.
           and_then (phase_flip b axs_flip) (\<lambda>b. Inr (a, b))))"

definition tensordot_fermionic :: "farray \<Rightarrow> farray \<Rightarrow> axes_arg \<Rightarrow> error + farray" where
  "tensordot_fermionic a b axes =
     (let ndim_a = ndim a; ndim_b = ndim b
      in and_then (tensordot_axes ndim_a ndim_b axes) (\<lambda>(axes_a, axes_b).
           let left_axes = without (py_range 0 (int ndim_a)) axes_a;
               right_axes = without (py_range 0 (int ndim_b)) axes_b;
               ncon = int (length axes_a);
               perm_a = left_axes @ axes_a;
               perm_b = axes_b @ right_axes
           in and_then (transpose a (Some perm_a) True) (\<lambda>a.
              and_then (transpose b (Some perm_b) True) (\<lambda>b.
                let new_axes_a = py_range (int ndim_a - ncon) (int ndim_a);
                    new_axes_b = py_range 0 ncon
                in and_then (phase_virtual_transpose b
                               (Some (rev (py_range 0 ncon) @ py_range ncon (int (ndim b)))))
                     (\<lambda>b.
                   and_then (tensordot_flip a b new_axes_a new_axes_b) (\<lambda>(a, b).
                   and_then (phase_resolve a) (\<lambda>a.
                   and_then (phase_resolve b) (\<lambda>b.
                     tensordot_symmetric a b (new_axes_a, new_axes_b)))))))))"

section \<open>Notions used in the statements\<close>

text \<open>
  A permutation of the axes of an \<open>n\<close>-dimensional array, written as Python gives it to
  \<open>transpose\<close>: each of \<open>0, ..., n - 1\<close> exactly once.
\<close>

definition valid_perm :: "nat \<Rightarrow> int list \<Rightarrow> bool" where
  "valid_perm n p \<longleftrightarrow> length p = n \<and> distinct p \<and> list_all (\<lambda>a. 0 \<le> a \<and> a < int n) p"

text \<open>
  The sequence \<open>xs\<close> read in the order \<open>p\<close>: entry \<open>i\<close> of the result is entry
  \<open>p[i]\<close> of \<open>xs\<close>.
\<close>

definition take_axes :: "'a list \<Rightarrow> int list \<Rightarrow> 'a list" where
  "take_axes xs p = map (\<lambda>a. xs ! nat a) p"

text \<open>
  The sign that \<open>calc_phase_permutation\<close> returns for a sector under a permutation
  (\<open>1\<close> where it raises; the theorems below show that it does not on a valid permutation).
\<close>

definition perm_phase :: "symmetry \<Rightarrow> sector \<Rightarrow> int list option \<Rightarrow> int" where
  "perm_phase symm s axes =
     (case calc_phase_permutation (map (parity symm) s) axes of Inl e \<Rightarrow> 1 | Inr c \<Rightarrow> c)"

text \<open>
  The shape of a block-sparse array: the keys of the block dictionary are distinct, every
  sector has one charge per axis, and every entry of a dense block has one coordinate per
  axis.
\<close>

definition wf_array :: "farray \<Rightarrow> bool" where
  "wf_array x \<longleftrightarrow>
     distinct (sectors x) \<and> list_all (\<lambda>s. length s = ndim x) (sectors x)
     \<and> list_all (\<lambda>(s, b). list_all (\<lambda>(i, v). length i = ndim x) b) (blocks x)"

text \<open>
  The invariant of the lazy phases: the phase dictionary has distinct keys, stores only
  the value \<open>-1\<close>, and its keys are sectors of the block dictionary.
\<close>

definition phases_ok :: "farray \<Rightarrow> bool" where
  "phases_ok x \<longleftrightarrow>
     distinct (map fst (phases x))
     \<and> list_all (\<lambda>(k, v). v = - 1 \<and> k \<in> set (sectors x)) (phases x)"

text \<open>
  The dense transpose of a block by a permutation that is in range: every coordinate tuple
  is read in the order of the permutation.
\<close>

definition block_take_axes :: "block \<Rightarrow> int list \<Rightarrow> block" where
  "block_take_axes b p = map (\<lambda>(i, v). (take_axes i p, v)) b"

text \<open>
  The phase of a sector: \<open>phases.get(sector, 1)\<close>.
\<close>

definition sector_phase :: "farray \<Rightarrow> sector \<Rightarrow> int" where
  "sector_phase x s = dict_get (phases x) s 1"

text \<open>
  The position of the first occurrence of a value in a list.
\<close>

definition index_of :: "'a list \<Rightarrow> 'a \<Rightarrow> nat" where
  "index_of xs v = length (takeWhile (\<lambda>y. y \<noteq> v) xs)"

text \<open>
  The inverse of a permutation \<open>p\<close>: entry \<open>i\<close> is the position of \<open>i\<close> in \<open>p\<close>.
\<close>

definition inverse_perm :: "int list \<Rightarrow> int list" where
  "inverse_perm p = map (\<lambda>i. int (index_of p (int i))) [0..<length p]"

text \<open>
  Example data: an index with the charges 0 and 1, each of size 1.
\<close>

definition ex_index :: "bool \<Rightarrow> blockindex" where
  "ex_index f = \<lparr>chargemap = [(0, 1), (1, 1)], flow = f\<rparr>"

text \<open>
  Example data: a \<open>Z2\<close> matrix with an even and an odd sector, the odd one carrying a
  buffered \<open>-1\<close> phase.
\<close>

definition ex_matrix :: farray where
  "ex_matrix = \<lparr>symmetry = Z2, indices = [ex_index False, ex_index True], charge_total = 0,
      blocks = [([0, 0], [([0, 0], 2)]), ([1, 1], [([0, 0], 3)])],
      phases = [([1, 1], - 1)]\<rparr>"

text \<open>
  The block dictionary after every buffered \<open>-1\<close> phase has been applied: the block of a
  sector is negated iff the phase dictionary holds \<open>-1\<close> for it.
\<close>

definition resolved_blocks :: "(sector, int) dict \<Rightarrow> (sector, block) dict \<Rightarrow> (sector, block) dict" where
  "resolved_blocks ps bs =
     map (\<lambda>(s, b). (s, if map_of ps s = Some (- 1) then block_neg b else b)) bs"

text \<open>
  The invariant of the lazy phases over a given set of sectors.
\<close>

definition signs_in :: "sector set \<Rightarrow> (sector, int) dict \<Rightarrow> bool" where
  "signs_in S d \<longleftrightarrow>
     distinct (map fst d) \<and> (\<forall>k v. map_of d k = Some v \<longrightarrow> v = - 1 \<and> k \<in> S)"

text \<open>
  Example data: \<open>ex_matrix\<close> with both flows reversed.
\<close>

definition ex_conj :: farray where
  "ex_conj = \<lparr>symmetry = Z2, indices = [ex_index True, ex_index False], charge_total = 0,
      blocks = [([0, 0], [([0, 0], 2)]), ([1, 1], [([0, 0], 3)])],
      phases = [([1, 1], - 1)]\<rparr>"

text \<open>
  Example data: a \<open>U1\<close> array with three axes and four sectors.
\<close>

definition ex_tensor :: farray where
  "ex_tensor = \<lparr>symmetry = U1,
      indices = [ex_index False, ex_index True, ex_index False], charge_total = 0,
      blocks = [([0, 0, 0], [([0, 0, 0], 1)]), ([0, 1, 1], [([0, 0, 0], 2)]),
                ([1, 0, 1], [([0, 0, 0], 3)]), ([1, 1, 0], [([0, 0, 0], 4)])],
      phases = [([1, 0, 1], - 1)]\<rparr>"

text \<open>
  Example data: a \<open>Z2\<close> vector of odd total charge on a ket index (\<open>flow=False\<close>), with
  the single entry \<open>1\<close> in its odd sector.
\<close>

definition ex_vector :: farray where
  "ex_vector = \<lparr>symmetry = Z2, indices = [ex_index False], charge_total = 1,
      blocks = [([1], [([0], 1)])], phases = []\<rparr>"

text \<open>
  Example data: what \<open>conj\<close> returns on \<open>ex_vector\<close>.
\<close>

definition ex_vector_conj :: farray where
  "ex_vector_conj = \<lparr>symmetry = Z2, indices = [ex_index True], charge_total = 1,
      blocks = [([1], [([0], 1)])], phases = [([1], - 1)]\<rparr>"

text \<open>
  Example data: an array with no axes, whose only block holds one number.
\<close>

definition ex_scalar :: "complex \<Rightarrow> farray" where
  "ex_scalar v = \<lparr>symmetry = Z2, indices = [], charge_total = 0,
      blocks = [([], [([], v)])], phases = []\<rparr>"

text \<open>
  Example data: a \<open>Z2\<close> matrix whose first axis is a ket (\<open>flow=False\<close>) and whose second
  axis is a bra (\<open>flow=True\<close>), with no buffered phase.
\<close>

definition ex_ket_bra :: farray where
  "ex_ket_bra = \<lparr>symmetry = Z2, indices = [ex_index False, ex_index True], charge_total = 0,
      blocks = [([0, 0], [([0, 0], 2)]), ([1, 1], [([0, 0], 3)])], phases = []\<rparr>"

text \<open>
  Example data: the same matrix with the two flows exchanged.
\<close>

definition ex_bra_ket :: farray where
  "ex_bra_ket = \<lparr>symmetry = Z2, indices = [ex_index True, ex_index False], charge_total = 0,
      blocks = [([0, 0], [([0, 0], 2)]), ([1, 1], [([0, 0], 3)])], phases = []\<rparr>"

text \<open>
  A list of contracted axes of an \<open>n\<close>-dimensional operand: distinct axes, each within
  \<open>0, ..., n - 1\<close>.
\<close>

definition axes_ok :: "nat \<Rightarrow> int list \<Rightarrow> bool" where
  "axes_ok n axes \<longleftrightarrow> distinct axes \<and> list_all (\<lambda>ax. 0 \<le> ax \<and> ax < int n) axes"

text \<open>
  The flip stage in the words of the spec: \<open>phase_flip\<close> is applied to the operand with
  the smaller element count, on its contracted axes that are dual-oriented (\<open>phase_flip\<close>
  itself acts on the sectors of odd parity there). It differs from \<open>tensordot_flip\<close> in
  the second branch only.
\<close>

definition tensordot_flip_spec ::
  "farray \<Rightarrow> farray \<Rightarrow> int list \<Rightarrow> int list \<Rightarrow> error + (farray \<times> farray)"
where
  "tensordot_flip_spec a b new_axes_a new_axes_b =
     (if array_size a \<le> array_size b
      then and_then (axes_if_flow True (indices a) new_axes_a) (\<lambda>axs_flip.
           and_then (phase_flip a axs_flip) (\<lambda>a. Inr (a, b)))
      else and_then (axes_if_flow True (indices b) new_axes_b) (\<lambda>axs_flip.
           and_then (phase_flip b axs_flip) (\<lambda>b. Inr (a, b))))"

text \<open>
  The staged procedure in the words of the spec: the stages of \<open>tensordot_fermionic\<close>,
  with the flip stage as the spec words it.
\<close>

definition tensordot_fermionic_spec :: "farray \<Rightarrow> farray \<Rightarrow> axes_arg \<Rightarrow> error + farray" where
  "tensordot_fermionic_spec a b axes =
     (let ndim_a = ndim a; ndim_b = ndim b
      in and_then (tensordot_axes ndim_a ndim_b axes) (\<lambda>(axes_a, axes_b).
           let left_axes = without (py_range 0 (int ndim_a)) axes_a;
               right_axes = without (py_range 0 (int ndim_b)) axes_b;
               ncon = int (length axes_a)
           in and_then (transpose a (Some (left_axes @ axes_a)) True) (\<lambda>a.
              and_then (transpose b (Some (axes_b @ right_axes)) True) (\<lambda>b.
                let new_axes_a = py_range (int ndim_a - ncon) (int ndim_a);
                    new_axes_b = py_range 0 ncon
                in and_then (phase_virtual_transpose b
                               (Some (rev (py_range 0 ncon) @ py_range ncon (int (ndim b)))))
                     (\<lambda>b.
                   and_then (tensordot_flip_spec a b new_axes_a new_axes_b) (\<lambda>(a, b).
                   and_then (phase_resolve a) (\<lambda>a.
                   and_then (phase_resolve b) (\<lambda>b.
                     tensordot_symmetric a b (new_axes_a, new_axes_b)))))))))"

text \<open>
  Example data: a \<open>Z2\<close> vector of odd total charge whose odd sector holds one number.
\<close>

definition ex_contracted :: "complex \<Rightarrow> farray" where
  "ex_contracted v = \<lparr>symmetry = Z2, indices = [ex_index False], charge_total = 1,
      blocks = [([1], [([0], v)])], phases = []\<rparr>"

section \<open>Properties\<close>

text \<open>
  C10: \<open>transpose\<close> with the axes omitted (\<open>None\<close>) behaves exactly like \<open>transpose\<close>
  with the reversal \<open>(ndim - 1, ..., 0)\<close>, for the data and for the phases, with
  \<open>phase\<close> either way: the two calls give the same result, and raise the same error if
  they raise.
\<close>

theorem transpose_default_axes:
  "transpose x None phase = transpose x (Some (rev (map int [0..<ndim x]))) phase"
  by (simp add: transpose_def)

lemma and_then_Inr [simp]: "and_then (Inr v) f = f v"
  by (simp add: and_then_def)

lemma and_then_Inl [simp]: "and_then (Inl e) f = Inl e"
  by (simp add: and_then_def)

lemma and_then_eq_Inr:
  "and_then r f = Inr y \<longleftrightarrow> (\<exists>v. r = Inr v \<and> f v = Inr y)"
  by (cases r) simp_all

lemma map_res_total:
  "(\<And>x. x \<in> set xs \<Longrightarrow> f x = Inr (g x)) \<Longrightarrow> map_res f xs = Inr (map g xs)"
  by (induction xs) simp_all

lemma map_res_length: "map_res f xs = Inr ys \<Longrightarrow> length ys = length xs"
  by (induction xs arbitrary: ys) (auto simp: and_then_eq_Inr)

lemma norm_axis_in_range: "0 \<le> a \<Longrightarrow> a < int n \<Longrightarrow> norm_axis n a = Inr (nat a)"
  by (simp add: norm_axis_def)

lemma permuted_in_range:
  assumes "list_all (\<lambda>a. 0 \<le> a \<and> a < int (length xs)) p"
  shows "permuted xs p = Inr (take_axes xs p)"
  unfolding permuted_def take_axes_def
  using assms by (intro map_res_total) (auto simp: py_nth_def norm_axis_in_range list_all_iff)

lemma valid_perm_set:
  assumes "valid_perm n p"
  shows "set p = int ` {..<n}"
proof -
  have sub: "nat ` set p \<subseteq> {..<n}"
    using assms by (auto simp: valid_perm_def list_all_iff)
  have inj: "inj_on nat (set p)"
  proof (rule inj_onI)
    fix x y assume "x \<in> set p" "y \<in> set p" "nat x = nat y"
    moreover from this assms have "0 \<le> x" "0 \<le> y"
      by (auto simp: valid_perm_def list_all_iff)
    ultimately show "x = y" by (simp add: eq_nat_nat_iff)
  qed
  have "card (nat ` set p) = n"
    using assms inj by (simp add: card_image valid_perm_def distinct_card)
  with sub have img: "nat ` set p = {..<n}"
    by (simp add: card_subset_eq)
  have nonneg: "\<And>a. a \<in> set p \<Longrightarrow> 0 \<le> a"
    using assms by (simp add: valid_perm_def list_all_iff)
  show ?thesis
  proof (rule equalityI; rule subsetI)
    fix a assume a: "a \<in> set p"
    then have "nat a \<in> {..<n}" using img by blast
    moreover have "a = int (nat a)" using nonneg [OF a] by simp
    ultimately show "a \<in> int ` {..<n}" by (rule rev_image_eqI)
  next
    fix a assume "a \<in> int ` {..<n}"
    then obtain i where i: "i < n" "a = int i" by auto
    then have "i \<in> nat ` set p" using img by simp
    then obtain b where b: "b \<in> set p" "i = nat b" by auto
    with nonneg [OF b(1)] i show "a \<in> set p" by simp
  qed
qed

lemma take_axes_inj:
  assumes p: "valid_perm n p" and ls: "length s = n" and lt: "length t = n"
    and eq: "take_axes s p = take_axes t p"
  shows "s = t"
proof (rule nth_equalityI)
  show "length s = length t" using ls lt by simp
next
  fix i assume "i < length s"
  then have "int i \<in> set p" using valid_perm_set [OF p] ls by auto
  then obtain k where k: "k < length p" "p ! k = int i"
    by (auto simp: in_set_conv_nth)
  from eq have "take_axes s p ! k = take_axes t p ! k" by simp
  with k show "s ! i = t ! i" by (simp add: take_axes_def)
qed

lemma dict_set_fresh: "k \<notin> fst ` set d \<Longrightarrow> dict_set d k v = d @ [(k, v)]"
  unfolding dict_set_def by (induction d) auto

lemma calc_phase_permutation_in_range:
  assumes "list_all (\<lambda>a. 0 \<le> a \<and> a < int (length par)) p"
  shows "calc_phase_permutation par (Some p) =
           Inr (if even (inversions (filter (\<lambda>ax. par ! ax \<noteq> 0) (map nat p))) then 1 else - 1)"
proof -
  have "map_res (norm_axis (length par)) p = Inr (map nat p)"
    using assms by (intro map_res_total) (auto simp: norm_axis_in_range list_all_iff)
  then show ?thesis by (simp add: calc_phase_permutation_def)
qed

lemma calc_phase_permutation_None:
  "calc_phase_permutation par None =
     calc_phase_permutation par (Some (rev (map int [0..<length par])))"
  by (simp add: calc_phase_permutation_def)

lemma perm_phase_in_range:
  assumes "list_all (\<lambda>a. 0 \<le> a \<and> a < int (length s)) p"
  shows "calc_phase_permutation (map (parity symm) s) (Some p) = Inr (perm_phase symm s (Some p))"
  using calc_phase_permutation_in_range [of "map (parity symm) s" p] assms
  by (simp add: perm_phase_def)

lemma perm_phase_values: "perm_phase symm s axes = 1 \<or> perm_phase symm s axes = - 1"
  by (auto simp: perm_phase_def calc_phase_permutation_def and_then_def Let_def
      split: sum.splits option.splits if_splits)

lemma transpose_phases_closed:
  assumes "list_all (\<lambda>a. 0 \<le> a \<and> a < int n) p"
    and "\<forall>s\<in>set ss. length s = n"
    and "distinct (map (\<lambda>s. take_axes s p) ss)"
    and "fst ` set acc \<inter> (\<lambda>s. take_axes s p) ` set ss = {}"
  shows "transpose_phases symm old p ss acc =
           Inr (acc @ map (\<lambda>s. (take_axes s p, - 1))
                  (filter (\<lambda>s. dict_get old s 1 * perm_phase symm s (Some p) = - 1) ss))"
  using assms(2-4)
proof (induction ss arbitrary: acc)
  case Nil
  then show ?case by simp
next
  case (Cons s ss)
  have len: "length s = n" using Cons.prems by simp
  have cp: "calc_phase_permutation (map (parity symm) s) (Some p)
              = Inr (perm_phase symm s (Some p))"
    using assms(1) len by (intro perm_phase_in_range) simp
  have pm: "permuted s p = Inr (take_axes s p)"
    using assms(1) len by (intro permuted_in_range) simp
  show ?case
  proof (cases "dict_get old s 1 * perm_phase symm s (Some p) = - 1")
    case True
    have fresh: "take_axes s p \<notin> fst ` set acc" using Cons.prems by auto
    have "fst ` set (acc @ [(take_axes s p, - 1::int)]) \<inter> (\<lambda>s. take_axes s p) ` set ss = {}"
      using Cons.prems by auto
    with Cons.IH [of "acc @ [(take_axes s p, - 1)]"] Cons.prems True cp pm fresh
    show ?thesis by (simp add: dict_set_fresh)
  next
    case False
    have "fst ` set acc \<inter> (\<lambda>s. take_axes s p) ` set ss = {}"
      using Cons.prems by auto
    with Cons.IH [of acc] Cons.prems False cp show ?thesis by simp
  qed
qed

lemma rekey_phases_closed:
  assumes "list_all (\<lambda>a. 0 \<le> a \<and> a < int n) p"
    and "\<forall>s\<in>fst ` set d. length s = n"
    and "distinct (map (\<lambda>s. take_axes s p) (map fst d))"
    and "fst ` set acc \<inter> (\<lambda>s. take_axes s p) ` fst ` set d = {}"
  shows "rekey_phases d p acc = Inr (acc @ map (\<lambda>(s, v). (take_axes s p, v)) d)"
  using assms(2-4)
proof (induction d arbitrary: acc)
  case Nil
  then show ?case by simp
next
  case (Cons e d)
  obtain s v where e: "e = (s, v)" by (cases e)
  have len: "length s = n" using Cons.prems e by simp
  have pm: "permuted s p = Inr (take_axes s p)"
    using assms(1) len by (intro permuted_in_range) simp
  have fresh: "take_axes s p \<notin> fst ` set acc" using Cons.prems e by auto
  have "fst ` set (acc @ [(take_axes s p, v)]) \<inter> (\<lambda>s. take_axes s p) ` fst ` set d = {}"
    using Cons.prems e by auto
  with Cons.IH [of "acc @ [(take_axes s p, v)]"] Cons.prems e pm fresh
  show ?case by (simp add: dict_set_fresh)
qed

lemma block_transpose_in_range:
  assumes "list_all (\<lambda>a. 0 \<le> a \<and> a < int n) p"
    and "list_all (\<lambda>(i, v). length i = n) b"
  shows "block_transpose b p = Inr (block_take_axes b p)"
  unfolding block_transpose_def block_take_axes_def
proof (intro map_res_total)
  fix t assume t: "t \<in> set b"
  obtain i v where iv: "t = (i, v)" by (cases t)
  with t assms(2) have "length i = n" by (auto simp: list_all_iff)
  with assms(1) have "permuted i p = Inr (take_axes i p)"
    by (intro permuted_in_range) simp
  with iv show "(case t of (i, v) \<Rightarrow> and_then (permuted i p) (\<lambda>j. Inr (j, v)))
                  = Inr (case t of (i, v) \<Rightarrow> (take_axes i p, v))"
    by simp
qed

lemma transpose_blocks_closed:
  assumes "list_all (\<lambda>a. 0 \<le> a \<and> a < int n) p"
    and "\<forall>s\<in>fst ` set bs. length s = n"
    and "list_all (\<lambda>(s, b). list_all (\<lambda>(i, v). length i = n) b) bs"
    and "distinct (map (\<lambda>s. take_axes s p) (map fst bs))"
    and "fst ` set acc \<inter> (\<lambda>s. take_axes s p) ` fst ` set bs = {}"
  shows "transpose_blocks bs p acc =
           Inr (acc @ map (\<lambda>(s, b). (take_axes s p, block_take_axes b p)) bs)"
  using assms(2-5)
proof (induction bs arbitrary: acc)
  case Nil
  then show ?case by simp
next
  case (Cons e bs)
  obtain s b where e: "e = (s, b)" by (cases e)
  have len: "length s = n" using Cons.prems e by simp
  have pm: "permuted s p = Inr (take_axes s p)"
    using assms(1) len by (intro permuted_in_range) simp
  have bt: "block_transpose b p = Inr (block_take_axes b p)"
    using assms(1) Cons.prems(2) e by (intro block_transpose_in_range [where n = n]) simp_all
  have fresh: "take_axes s p \<notin> fst ` set acc" using Cons.prems e by auto
  have "fst ` set (acc @ [(take_axes s p, block_take_axes b p)])
          \<inter> (\<lambda>s. take_axes s p) ` fst ` set bs = {}"
    using Cons.prems e by auto
  with Cons.IH [of "acc @ [(take_axes s p, block_take_axes b p)]"] Cons.prems e pm bt fresh
  show ?case by (simp add: dict_set_fresh)
qed

lemma distinct_take_axes:
  assumes "valid_perm n p" and "distinct ss" and "\<forall>s\<in>set ss. length s = n"
  shows "distinct (map (\<lambda>s. take_axes s p) ss)"
  using assms(2,3) take_axes_inj [OF assms(1)]
  by (auto simp: distinct_map intro!: inj_onI)

lemma wf_array_lengths:
  "wf_array x \<Longrightarrow> s \<in> set (sectors x) \<Longrightarrow> length s = ndim x"
  by (simp add: wf_array_def list_all_iff)

lemma symmetric_transpose_closed:
  assumes p: "valid_perm (ndim x) p" and wf: "wf_array x"
  shows "symmetric_transpose x p =
           Inr (x\<lparr>indices := take_axes (indices x) p,
                  blocks := map (\<lambda>(s, b). (take_axes s p, block_take_axes b p)) (blocks x)\<rparr>)"
proof -
  have rng: "list_all (\<lambda>a. 0 \<le> a \<and> a < int (ndim x)) p"
    using p by (simp add: valid_perm_def)
  have ix: "permuted (indices x) p = Inr (take_axes (indices x) p)"
    using rng by (intro permuted_in_range) (simp add: ndim_def)
  have len: "\<forall>s\<in>fst ` set (blocks x). length s = ndim x"
    using wf by (auto simp: wf_array_def list_all_iff sectors_def)
  have "distinct (map (\<lambda>s. take_axes s p) (map fst (blocks x)))"
    using distinct_take_axes [OF p, of "map fst (blocks x)"] wf len
    by (simp add: wf_array_def sectors_def)
  then have "transpose_blocks (blocks x) p [] =
               Inr ([] @ map (\<lambda>(s, b). (take_axes s p, block_take_axes b p)) (blocks x))"
    using rng len wf by (intro transpose_blocks_closed [where n = "ndim x"])
      (simp_all add: wf_array_def)
  with ix show ?thesis by (simp add: symmetric_transpose_def)
qed

lemma transpose_closed_True:
  assumes p: "valid_perm (ndim x) p" and wf: "wf_array x"
  shows "transpose x (Some p) True =
           Inr (x\<lparr>indices := take_axes (indices x) p,
                  blocks := map (\<lambda>(s, b). (take_axes s p, block_take_axes b p)) (blocks x),
                  phases := map (\<lambda>s. (take_axes s p, - 1))
                    (filter (\<lambda>s. sector_phase x s * perm_phase (symmetry x) s (Some p) = - 1)
                       (sectors x))\<rparr>)"
proof -
  let ?ps = "map (\<lambda>s. (take_axes s p, - 1))
               (filter (\<lambda>s. sector_phase x s * perm_phase (symmetry x) s (Some p) = - 1)
                  (sectors x))"
  have rng: "list_all (\<lambda>a. 0 \<le> a \<and> a < int (ndim x)) p"
    using p by (simp add: valid_perm_def)
  have len: "\<forall>s\<in>set (sectors x). length s = ndim x"
    using wf by (simp add: wf_array_def list_all_iff)
  have "distinct (map (\<lambda>s. take_axes s p) (sectors x))"
    using distinct_take_axes [OF p, of "sectors x"] wf len by (simp add: wf_array_def)
  then have tp: "transpose_phases (symmetry x) (phases x) p (sectors x) [] = Inr ([] @ ?ps)"
    unfolding sector_phase_def using rng len
    by (intro transpose_phases_closed [where n = "ndim x"]) simp_all
  have "ndim (x\<lparr>phases := ?ps\<rparr>) = ndim x" "wf_array (x\<lparr>phases := ?ps\<rparr>)"
    using wf by (simp_all add: ndim_def wf_array_def sectors_def)
  with symmetric_transpose_closed [of "x\<lparr>phases := ?ps\<rparr>" p] p
  have "symmetric_transpose (x\<lparr>phases := ?ps\<rparr>) p =
          Inr (x\<lparr>phases := ?ps, indices := take_axes (indices x) p,
                 blocks := map (\<lambda>(s, b). (take_axes s p, block_take_axes b p)) (blocks x)\<rparr>)"
    by simp
  with tp show ?thesis by (simp add: transpose_def)
qed

lemma phases_ok_lengths:
  "wf_array x \<Longrightarrow> phases_ok x \<Longrightarrow> s \<in> fst ` set (phases x) \<Longrightarrow> length s = ndim x"
  by (force simp: phases_ok_def list_all_iff wf_array_def)

lemma transpose_closed_False:
  assumes p: "valid_perm (ndim x) p" and wf: "wf_array x" and ok: "phases_ok x"
  shows "transpose x (Some p) False =
           Inr (x\<lparr>indices := take_axes (indices x) p,
                  blocks := map (\<lambda>(s, b). (take_axes s p, block_take_axes b p)) (blocks x),
                  phases := map (\<lambda>(s, v). (take_axes s p, v)) (phases x)\<rparr>)"
proof -
  let ?ps = "map (\<lambda>(s, v). (take_axes s p, v)) (phases x)"
  have rng: "list_all (\<lambda>a. 0 \<le> a \<and> a < int (ndim x)) p"
    using p by (simp add: valid_perm_def)
  have len: "\<forall>s\<in>fst ` set (phases x). length s = ndim x"
    using phases_ok_lengths [OF wf ok] by blast
  have "distinct (map (\<lambda>s. take_axes s p) (map fst (phases x)))"
    using distinct_take_axes [OF p, of "map fst (phases x)"] ok len
    by (simp add: phases_ok_def)
  then have tp: "rekey_phases (phases x) p [] = Inr ([] @ ?ps)"
    using rng len by (intro rekey_phases_closed [where n = "ndim x"]) simp_all
  have "ndim (x\<lparr>phases := ?ps\<rparr>) = ndim x" "wf_array (x\<lparr>phases := ?ps\<rparr>)"
    using wf by (simp_all add: ndim_def wf_array_def sectors_def)
  with symmetric_transpose_closed [of "x\<lparr>phases := ?ps\<rparr>" p] p
  have "symmetric_transpose (x\<lparr>phases := ?ps\<rparr>) p =
          Inr (x\<lparr>phases := ?ps, indices := take_axes (indices x) p,
                 blocks := map (\<lambda>(s, b). (take_axes s p, block_take_axes b p)) (blocks x)\<rparr>)"
    by simp
  with tp show ?thesis by (simp add: transpose_def)
qed

text \<open>
  C3: for a permutation \<open>p\<close> of the axes of a well-shaped array \<open>x\<close>,
  \<open>transpose x p True\<close> returns an array whose indices, sector keys and block axes are
  those of \<open>x\<close> read in the order \<open>p\<close>, and whose phase dictionary holds \<open>-1\<close> at the
  permuted key of exactly those sectors whose stored phase times \<open>calc_phase_permutation\<close>
  of the sector's parities is \<open>-1\<close> (no \<open>+1\<close> is stored); \<open>transpose x p False\<close> does the
  same permutation of the data and only re-keys the phase entries, values unchanged. The
  last conjunct states that \<open>calc_phase_permutation\<close> returns on every sector.
\<close>

theorem transpose_permutes:
  assumes "valid_perm (ndim x) p" and "wf_array x"
  shows "(\<exists>y. transpose x (Some p) True = Inr y
            \<and> indices y = take_axes (indices x) p
            \<and> blocks y = map (\<lambda>(s, b). (take_axes s p, block_take_axes b p)) (blocks x)
            \<and> phases y = map (\<lambda>s. (take_axes s p, - 1))
                 (filter (\<lambda>s. sector_phase x s * perm_phase (symmetry x) s (Some p) = - 1)
                    (sectors x)))
       \<and> (phases_ok x \<longrightarrow> (\<exists>z. transpose x (Some p) False = Inr z
            \<and> indices z = take_axes (indices x) p
            \<and> blocks z = map (\<lambda>(s, b). (take_axes s p, block_take_axes b p)) (blocks x)
            \<and> phases z = map (\<lambda>(s, v). (take_axes s p, v)) (phases x)))
       \<and> (\<forall>s\<in>set (sectors x).
            calc_phase_permutation (map (parity (symmetry x)) s) (Some p)
              = Inr (perm_phase (symmetry x) s (Some p)))"
proof (intro conjI impI ballI)
  show "\<exists>y. transpose x (Some p) True = Inr y
            \<and> indices y = take_axes (indices x) p
            \<and> blocks y = map (\<lambda>(s, b). (take_axes s p, block_take_axes b p)) (blocks x)
            \<and> phases y = map (\<lambda>s. (take_axes s p, - 1))
                 (filter (\<lambda>s. sector_phase x s * perm_phase (symmetry x) s (Some p) = - 1)
                    (sectors x))"
    using transpose_closed_True [OF assms] by simp
next
  assume "phases_ok x"
  then show "\<exists>z. transpose x (Some p) False = Inr z
            \<and> indices z = take_axes (indices x) p
            \<and> blocks z = map (\<lambda>(s, b). (take_axes s p, block_take_axes b p)) (blocks x)
            \<and> phases z = map (\<lambda>(s, v). (take_axes s p, v)) (phases x)"
    using transpose_closed_False [OF assms] by simp
next
  fix s assume "s \<in> set (sectors x)"
  then have "length s = ndim x" using assms(2) by (rule wf_array_lengths [rotated])
  with assms(1) show "calc_phase_permutation (map (parity (symmetry x)) s) (Some p)
              = Inr (perm_phase (symmetry x) s (Some p))"
    by (intro perm_phase_in_range) (simp add: valid_perm_def)
qed

lemma index_of_less: "v \<in> set xs \<Longrightarrow> index_of xs v < length xs"
  unfolding index_of_def by (induction xs) auto

lemma nth_index_of: "v \<in> set xs \<Longrightarrow> xs ! index_of xs v = v"
  unfolding index_of_def by (induction xs) auto

lemma index_of_nth: "distinct xs \<Longrightarrow> i < length xs \<Longrightarrow> index_of xs (xs ! i) = i"
  using nth_index_of [of "xs ! i" xs] index_of_less [of "xs ! i" xs]
  by (simp add: nth_eq_iff_index_eq)

lemma inversions_card:
  assumes "sorted_wrt (\<lambda>a b. g a < g b) l"
  shows "inversions (map f l)
           = card {(a, b). a \<in> set l \<and> b \<in> set l \<and> (g a :: nat) < g b \<and> (f b :: nat) < f a}"
  using assms
proof (induction l)
  case Nil
  then show ?case by simp
next
  case (Cons x xs)
  let ?S = "\<lambda>l. {(a, b). a \<in> set l \<and> b \<in> set l \<and> g a < g b \<and> f b < f a}"
  let ?T = "(\<lambda>b. (x, b)) ` {b \<in> set xs. f b < f x}"
  have gx: "\<forall>y\<in>set xs. g x < g y" and srt: "sorted_wrt (\<lambda>a b. g a < g b) xs"
    using Cons.prems by simp_all
  have xnotin: "x \<notin> set xs" using gx by auto
  have dist: "distinct xs"
    using srt by (induction xs) auto
  have split: "?S (x # xs) = ?T \<union> ?S xs"
    using gx by (auto simp: image_iff)
  have disj: "?T \<inter> ?S xs = {}" using xnotin by auto
  have fin: "finite ?T" "finite (?S xs)"
  proof -
    show "finite ?T" by simp
    have "?S xs \<subseteq> set xs \<times> set xs" by auto
    then show "finite (?S xs)" by (rule finite_subset) simp
  qed
  have "card ?T = card {b \<in> set xs. f b < f x}"
    by (intro card_image) (simp add: inj_on_def)
  also have "\<dots> = length (filter (\<lambda>b. f b < f x) xs)"
    using dist by (simp add: distinct_length_filter Collect_conj_eq Int_commute)
  also have "\<dots> = length (filter (\<lambda>y. y < f x) (map f xs))"
    by (simp add: filter_map comp_def)
  finally have cT: "card ?T = length (filter (\<lambda>y. y < f x) (map f xs))" .
  have "card (?S (x # xs)) = card ?T + card (?S xs)"
    unfolding split using fin disj by (rule card_Un_disjoint)
  with cT Cons.IH [OF srt] show ?case by simp
qed

lemma sorted_wrt_index_of:
  assumes "distinct xs"
  shows "sorted_wrt (\<lambda>a b. index_of xs a < index_of xs b) xs"
  unfolding sorted_wrt_iff_nth_less
proof (intro allI impI)
  fix i j assume "i < j" "j < length xs"
  with assms have "index_of xs (xs ! i) = i" "index_of xs (xs ! j) = j"
    by (simp_all add: index_of_nth)
  with \<open>i < j\<close> show "index_of xs (xs ! i) < index_of xs (xs ! j)" by simp
qed

lemma inversions_inverse:
  assumes d: "distinct P" and s: "set P = {..<n}"
  shows "inversions (filter A P)
           = inversions (map (index_of P) (filter A [0..<n]))"
proof -
  let ?S2 = "{(a, b). a \<in> set (filter A P) \<and> b \<in> set (filter A P)
                 \<and> index_of P a < index_of P b \<and> id b < id a}"
  let ?S1 = "{(a, b). a \<in> set (filter A [0..<n]) \<and> b \<in> set (filter A [0..<n])
                 \<and> id a < id b \<and> index_of P b < index_of P a}"
  have "sorted_wrt (\<lambda>a b. index_of P a < index_of P b) (filter A P)"
    using sorted_wrt_index_of [OF d] by (rule sorted_wrt_filter)
  from inversions_card [OF this, of id]
  have c2: "inversions (filter A P) = card ?S2" by simp
  have "sorted_wrt (\<lambda>a b. id a < id b) (filter A [0..<n])"
    by (intro sorted_wrt_filter) (simp add: sorted_wrt_upt)
  from inversions_card [OF this, of "index_of P"]
  have c1: "inversions (map (index_of P) (filter A [0..<n])) = card ?S1" .
  have "?S1 = prod.swap ` ?S2"
  proof (rule equalityI; rule subsetI)
    fix z assume "z \<in> ?S1"
    then obtain a b where z: "z = prod.swap (b, a)" and ab: "(b, a) \<in> ?S2"
      using s by (cases z) simp
    show "z \<in> prod.swap ` ?S2" unfolding z using ab by (rule imageI)
  next
    fix z assume "z \<in> prod.swap ` ?S2"
    then obtain w where w: "w \<in> ?S2" and z: "z = prod.swap w" by (rule imageE)
    obtain a b where ab: "w = (a, b)" by (cases w)
    from w show "z \<in> ?S1" unfolding z ab using s by simp
  qed
  then have "card ?S1 = card ?S2"
    by (simp add: card_image)
  with c1 c2 show ?thesis by simp
qed

lemma valid_perm_nat:
  assumes "valid_perm n p"
  shows "distinct (map nat p)" and "set (map nat p) = {..<n}" and "length (map nat p) = n"
proof -
  have nonneg: "\<And>a. a \<in> set p \<Longrightarrow> 0 \<le> a"
    using assms by (simp add: valid_perm_def list_all_iff)
  have "inj_on nat (set p)"
  proof (rule inj_onI)
    fix x y assume "x \<in> set p" "y \<in> set p" "nat x = nat y"
    with nonneg [of x] nonneg [of y] show "x = y" by (simp add: eq_nat_nat_iff)
  qed
  with assms show "distinct (map nat p)" by (simp add: distinct_map valid_perm_def)
  show "set (map nat p) = {..<n}"
    using valid_perm_set [OF assms] by (simp add: image_image)
  show "length (map nat p) = n" using assms by (simp add: valid_perm_def)
qed

lemma index_of_map_nat:
  assumes "\<forall>a\<in>set p. 0 \<le> a"
  shows "index_of p (int i) = index_of (map nat p) i"
proof -
  have "takeWhile (\<lambda>y. y \<noteq> int i) p = takeWhile ((\<lambda>y. y \<noteq> i) \<circ> nat) p"
    using assms by (intro takeWhile_cong) auto
  then show ?thesis by (simp add: index_of_def takeWhile_map)
qed

lemma map_nat_inverse_perm:
  assumes "valid_perm n p"
  shows "map nat (inverse_perm p) = map (index_of (map nat p)) [0..<n]"
proof -
  have "\<forall>a\<in>set p. 0 \<le> a" using assms by (simp add: valid_perm_def list_all_iff)
  then have "\<And>i. index_of p (int i) = index_of (map nat p) i"
    by (rule index_of_map_nat)
  moreover have "length p = n" using assms by (simp add: valid_perm_def)
  ultimately show ?thesis by (simp add: inverse_perm_def comp_def)
qed

lemma valid_perm_inverse:
  assumes "valid_perm n p"
  shows "valid_perm n (inverse_perm p)"
proof -
  let ?P = "map nat p"
  note P = valid_perm_nat [OF assms]
  have len: "length (inverse_perm p) = n"
    using assms by (simp add: inverse_perm_def valid_perm_def)
  have rng: "list_all (\<lambda>a. 0 \<le> a \<and> a < int n) (inverse_perm p)"
  proof -
    have "\<And>i. i < n \<Longrightarrow> index_of p (int i) < n"
      using index_of_less [of _ p] valid_perm_set [OF assms] assms
      by (simp add: valid_perm_def)
    then show ?thesis
      using assms by (simp add: inverse_perm_def list_all_iff valid_perm_def)
  qed
  have "inj_on (index_of ?P) {..<n}"
  proof (rule inj_onI)
    fix i j assume "i \<in> {..<n}" "j \<in> {..<n}" "index_of ?P i = index_of ?P j"
    then have "?P ! index_of ?P i = ?P ! index_of ?P j" by simp
    moreover have "i \<in> set ?P" "j \<in> set ?P"
      using P(2) \<open>i \<in> {..<n}\<close> \<open>j \<in> {..<n}\<close> by simp_all
    ultimately show "i = j" by (simp add: nth_index_of)
  qed
  then have "distinct (map (index_of ?P) [0..<n])"
    by (simp add: distinct_map atLeast_upt)
  then have "distinct (map nat (inverse_perm p))"
    by (simp add: map_nat_inverse_perm [OF assms])
  then have "distinct (inverse_perm p)"
    by (simp add: distinct_map)
  with len rng show ?thesis by (simp add: valid_perm_def)
qed

lemma take_axes_inverse:
  assumes p: "valid_perm n p" and len: "length xs = n"
  shows "take_axes (take_axes xs p) (inverse_perm p) = xs"
proof (rule nth_equalityI)
  show "length (take_axes (take_axes xs p) (inverse_perm p)) = length xs"
    using p len by (simp add: take_axes_def inverse_perm_def valid_perm_def)
next
  fix i assume "i < length (take_axes (take_axes xs p) (inverse_perm p))"
  then have i: "i < n" using p by (simp add: take_axes_def inverse_perm_def valid_perm_def)
  then have mem: "int i \<in> set p" using valid_perm_set [OF p] by simp
  have lp: "length p = n" using p by (simp add: valid_perm_def)
  have "take_axes (take_axes xs p) (inverse_perm p) ! i
          = take_axes xs p ! index_of p (int i)"
    using i lp by (simp add: take_axes_def inverse_perm_def)
  also have "\<dots> = xs ! nat (p ! index_of p (int i))"
    using index_of_less [OF mem] by (simp add: take_axes_def)
  also have "\<dots> = xs ! i" using nth_index_of [OF mem] by simp
  finally show "take_axes (take_axes xs p) (inverse_perm p) ! i = xs ! i" .
qed

lemma perm_phase_inverse:
  assumes p: "valid_perm n p" and len: "length s = n"
  shows "perm_phase symm (take_axes s p) (Some (inverse_perm p)) = perm_phase symm s (Some p)"
proof -
  let ?P = "map nat p"
  let ?par = "map (parity symm) s"
  let ?par' = "map (parity symm) (take_axes s p)"
  note P = valid_perm_nat [OF p]
  have lp: "length p = n" using p by (simp add: valid_perm_def)
  have rp: "list_all (\<lambda>a. 0 \<le> a \<and> a < int (length ?par)) p"
    using p len by (simp add: valid_perm_def)
  have rq: "list_all (\<lambda>a. 0 \<le> a \<and> a < int (length ?par')) (inverse_perm p)"
    using valid_perm_inverse [OF p] lp by (simp add: valid_perm_def take_axes_def)
  have par: "?par' ! index_of ?P m = ?par ! m" if "m < n" for m
  proof -
    have mem: "m \<in> set ?P" using P(2) that by simp
    have less: "index_of ?P m < n" using index_of_less [OF mem] P(3) by simp
    have "?P ! index_of ?P m = m" using mem by (rule nth_index_of)
    then have "nat (p ! index_of ?P m) = m" using less lp by simp
    then show ?thesis using less lp that len by (simp add: take_axes_def)
  qed
  have "filter (\<lambda>ax. ?par' ! ax \<noteq> 0) (map nat (inverse_perm p))
          = map (index_of ?P) (filter (\<lambda>m. ?par' ! index_of ?P m \<noteq> 0) [0..<n])"
    by (simp add: map_nat_inverse_perm [OF p] filter_map comp_def)
  also have "filter (\<lambda>m. ?par' ! index_of ?P m \<noteq> 0) [0..<n]
               = filter (\<lambda>m. ?par ! m \<noteq> 0) [0..<n]"
    by (rule filter_cong) (simp_all add: par)
  finally have "inversions (filter (\<lambda>ax. ?par' ! ax \<noteq> 0) (map nat (inverse_perm p)))
                  = inversions (filter (\<lambda>m. ?par ! m \<noteq> 0) ?P)"
    using inversions_inverse [OF P(1) P(2), of "\<lambda>m. ?par ! m \<noteq> 0"] by simp
  then show ?thesis
    unfolding perm_phase_def
    by (simp only: calc_phase_permutation_in_range [OF rp]
        calc_phase_permutation_in_range [OF rq] sum.case)
qed

lemma map_of_tagged_filter:
  "map_of (map (\<lambda>s. (s, c)) (filter Q ss)) k = (if k \<in> set ss \<and> Q k then Some c else None)"
  by (induction ss) auto

lemma map_of_tagged_filter_inj:
  assumes inj: "inj_on f (set ss)" and s: "s \<in> set ss"
  shows "map_of (map (\<lambda>s. (f s, c)) (filter Q ss)) (f s) = (if Q s then Some c else None)"
proof (cases "Q s")
  case True
  let ?l = "map (\<lambda>s. (f s, c)) (filter Q ss)"
  have "f s \<in> fst ` set ?l" using True s by (auto simp: image_iff)
  then obtain v where v: "map_of ?l (f s) = Some v"
    by (metis map_of_eq_None_iff not_Some_eq)
  from map_of_SomeD [OF v] have "v = c" by auto
  with v True show ?thesis by simp
next
  case False
  have "f s \<notin> fst ` set (map (\<lambda>s. (f s, c)) (filter Q ss))"
  proof
    assume "f s \<in> fst ` set (map (\<lambda>s. (f s, c)) (filter Q ss))"
    then obtain t where t: "t \<in> set ss" "Q t" "f t = f s" by (auto simp: image_iff)
    with inj s have "t = s" by (auto dest: inj_onD)
    with t False show False by simp
  qed
  then show ?thesis using False by (simp add: map_of_eq_None_iff)
qed

lemma phases_ok_sector_phase:
  assumes "phases_ok x"
  shows "sector_phase x s = (if map_of (phases x) s = None then 1 else - 1)"
    and "map_of (phases x) s \<noteq> None \<Longrightarrow> map_of (phases x) s = Some (- 1) \<and> s \<in> set (sectors x)"
proof -
  have *: "v = - 1 \<and> s \<in> set (sectors x)" if "map_of (phases x) s = Some v" for v
    using map_of_SomeD [OF that] assms by (auto simp: phases_ok_def list_all_iff)
  show "sector_phase x s = (if map_of (phases x) s = None then 1 else - 1)"
    using * by (auto simp: sector_phase_def dict_get_def split: option.splits)
  show "map_of (phases x) s \<noteq> None \<Longrightarrow> map_of (phases x) s = Some (- 1) \<and> s \<in> set (sectors x)"
    using * by auto
qed

lemma block_take_axes_inverse:
  assumes p: "valid_perm n p" and b: "list_all (\<lambda>(i, v). length i = n) b"
  shows "block_take_axes (block_take_axes b p) (inverse_perm p) = b"
proof -
  have "\<And>t. t \<in> set b \<Longrightarrow>
          (case (case t of (i, v) \<Rightarrow> (take_axes i p, v)) of
             (i, v) \<Rightarrow> (take_axes i (inverse_perm p), v)) = t"
  proof -
    fix t assume t: "t \<in> set b"
    obtain i v where iv: "t = (i, v)" by (cases t)
    with t b have "length i = n" by (auto simp: list_all_iff)
    then show "(case (case t of (i, v) \<Rightarrow> (take_axes i p, v)) of
             (i, v) \<Rightarrow> (take_axes i (inverse_perm p), v)) = t"
      using take_axes_inverse [OF p] iv by simp
  qed
  then show ?thesis
    unfolding block_take_axes_def by (simp add: map_idI comp_def)
qed

lemma wf_array_transposed:
  fixes ps :: "(sector, int) dict"
  assumes p: "valid_perm (ndim x) p" and wf: "wf_array x"
  defines "y \<equiv> x\<lparr>indices := take_axes (indices x) p,
                  blocks := map (\<lambda>(s, b). (take_axes s p, block_take_axes b p)) (blocks x),
                  phases := ps\<rparr>"
  shows "ndim y = ndim x" and "wf_array y"
    and "sectors y = map (\<lambda>s. take_axes s p) (sectors x)"
proof -
  have lp: "length p = ndim x" using p by (simp add: valid_perm_def)
  show n: "ndim y = ndim x" by (simp add: y_def ndim_def take_axes_def lp [unfolded ndim_def])
  show s: "sectors y = map (\<lambda>s. take_axes s p) (sectors x)"
    by (simp add: y_def sectors_def comp_def case_prod_unfold)
  have len: "\<forall>s\<in>set (sectors x). length s = ndim x"
    using wf by (simp add: wf_array_def list_all_iff)
  have d: "distinct (sectors y)"
    unfolding s using distinct_take_axes [OF p _ len] wf by (simp add: wf_array_def)
  have l: "list_all (\<lambda>s. length s = ndim y) (sectors y)"
    unfolding s n by (simp add: list_all_iff take_axes_def lp)
  have b: "list_all (\<lambda>(s, b). list_all (\<lambda>(i, v). length i = ndim y) b) (blocks y)"
    unfolding n
    by (auto simp: y_def list_all_iff block_take_axes_def take_axes_def lp)
  from d l b show "wf_array y" by (simp add: wf_array_def)
qed

lemma transposed_sector_phase:
  assumes p: "valid_perm (ndim x) p" and wf: "wf_array x" and ok: "phases_ok x"
    and s: "s \<in> set (sectors x)"
  defines "ps \<equiv> map (\<lambda>s. (take_axes s p, - 1 :: int))
                   (filter (\<lambda>s. sector_phase x s * perm_phase (symmetry x) s (Some p) = - 1)
                      (sectors x))"
  shows "dict_get ps (take_axes s p) 1 = sector_phase x s * perm_phase (symmetry x) s (Some p)"
proof -
  have len: "\<forall>s\<in>set (sectors x). length s = ndim x"
    using wf by (simp add: wf_array_def list_all_iff)
  have inj: "inj_on (\<lambda>s. take_axes s p) (set (sectors x))"
    using take_axes_inj [OF p] len by (auto intro!: inj_onI)
  have m: "map_of ps (take_axes s p)
             = (if sector_phase x s * perm_phase (symmetry x) s (Some p) = - 1
                then Some (- 1) else None)"
    unfolding ps_def using inj s by (rule map_of_tagged_filter_inj)
  have "sector_phase x s = 1 \<or> sector_phase x s = - 1"
    using phases_ok_sector_phase(1) [OF ok, of s] by presburger
  moreover have "perm_phase (symmetry x) s (Some p) = 1 \<or> perm_phase (symmetry x) s (Some p) = - 1"
    by (rule perm_phase_values)
  ultimately show ?thesis
    using m by (auto simp: dict_get_def)
qed

lemma transpose_round_trip_closed:
  assumes p: "valid_perm (ndim x) p" and wf: "wf_array x" and ok: "phases_ok x"
  shows "\<exists>y. transpose x (Some p) True = Inr y
           \<and> transpose y (Some (inverse_perm p)) True
               = Inr (x\<lparr>phases := map (\<lambda>s. (s, - 1))
                                   (filter (\<lambda>s. sector_phase x s = - 1) (sectors x))\<rparr>)"
proof -
  let ?q = "inverse_perm p"
  let ?ps = "map (\<lambda>s. (take_axes s p, - 1 :: int))
               (filter (\<lambda>s. sector_phase x s * perm_phase (symmetry x) s (Some p) = - 1)
                  (sectors x))"
  define y where "y = x\<lparr>indices := take_axes (indices x) p,
                  blocks := map (\<lambda>(s, b). (take_axes s p, block_take_axes b p)) (blocks x),
                  phases := ?ps\<rparr>"
  have ty: "transpose x (Some p) True = Inr y"
    unfolding y_def by (rule transpose_closed_True [OF p wf])
  have ny: "ndim y = ndim x" and wfy: "wf_array y"
    and sy: "sectors y = map (\<lambda>s. take_axes s p) (sectors x)"
    unfolding y_def by (rule wf_array_transposed [OF p wf])+
  have q: "valid_perm (ndim y) ?q" unfolding ny by (rule valid_perm_inverse [OF p])
  have len: "\<And>s. s \<in> set (sectors x) \<Longrightarrow> length s = ndim x"
    using wf by (simp add: wf_array_def list_all_iff)
  have ix: "take_axes (indices y) ?q = indices x"
    unfolding y_def using take_axes_inverse [OF p, of "indices x"] by (simp add: ndim_def)
  have bl: "map (\<lambda>(s, b). (take_axes s ?q, block_take_axes b ?q)) (blocks y) = blocks x"
  proof -
    have "\<And>e. e \<in> set (blocks x) \<Longrightarrow>
            (case (case e of (s, b) \<Rightarrow> (take_axes s p, block_take_axes b p)) of
               (s, b) \<Rightarrow> (take_axes s ?q, block_take_axes b ?q)) = e"
    proof -
      fix e assume e: "e \<in> set (blocks x)"
      obtain s b where sb: "e = (s, b)" by (cases e)
      from e sb have "s \<in> set (sectors x)" by (force simp: sectors_def)
      then have "length s = ndim x" by (rule len)
      then have 1: "take_axes (take_axes s p) ?q = s"
        by (rule take_axes_inverse [OF p])
      from e sb wf have "list_all (\<lambda>(i, v). length i = ndim x) b"
        by (auto simp: wf_array_def list_all_iff)
      then have 2: "block_take_axes (block_take_axes b p) ?q = b"
        by (rule block_take_axes_inverse [OF p])
      from 1 2 sb
      show "(case (case e of (s, b) \<Rightarrow> (take_axes s p, block_take_axes b p)) of
               (s, b) \<Rightarrow> (take_axes s ?q, block_take_axes b ?q)) = e"
        by simp
    qed
    then show ?thesis by (simp add: y_def map_idI comp_def)
  qed
  have ph: "map (\<lambda>s. (take_axes s ?q, - 1 :: int))
              (filter (\<lambda>s. sector_phase y s * perm_phase (symmetry y) s (Some ?q) = - 1)
                 (sectors y))
            = map (\<lambda>s. (s, - 1)) (filter (\<lambda>s. sector_phase x s = - 1) (sectors x))"
  proof -
    have pred: "(sector_phase y (take_axes s p)
                   * perm_phase (symmetry y) (take_axes s p) (Some ?q) = - 1)
                 = (sector_phase x s = - 1)" if s: "s \<in> set (sectors x)" for s
    proof -
      have a: "sector_phase y (take_axes s p)
                 = sector_phase x s * perm_phase (symmetry x) s (Some p)"
        using transposed_sector_phase [OF p wf ok s] by (simp add: y_def sector_phase_def)
      have b: "perm_phase (symmetry y) (take_axes s p) (Some ?q)
                 = perm_phase (symmetry x) s (Some p)"
        using perm_phase_inverse [OF p len [OF s]] by (simp add: y_def)
      have "perm_phase (symmetry x) s (Some p) = 1 \<or> perm_phase (symmetry x) s (Some p) = - 1"
        by (rule perm_phase_values)
      then show ?thesis unfolding a b by auto
    qed
    have "filter (\<lambda>s. sector_phase y s * perm_phase (symmetry y) s (Some ?q) = - 1) (sectors y)
            = map (\<lambda>s. take_axes s p) (filter (\<lambda>s. sector_phase x s = - 1) (sectors x))"
      unfolding sy filter_map comp_def
      by (rule arg_cong [where f = "map (\<lambda>s. take_axes s p)"], rule filter_cong)
        (simp_all add: pred)
    moreover have "map (\<lambda>s. (take_axes (take_axes s p) ?q, - 1 :: int))
                     (filter (\<lambda>s. sector_phase x s = - 1) (sectors x))
                   = map (\<lambda>s. (s, - 1)) (filter (\<lambda>s. sector_phase x s = - 1) (sectors x))"
      by (rule map_cong) (simp_all add: take_axes_inverse [OF p] len)
    ultimately show ?thesis by (simp add: comp_def)
  qed
  have "transpose y (Some ?q) True
          = Inr (y\<lparr>indices := take_axes (indices y) ?q,
                   blocks := map (\<lambda>(s, b). (take_axes s ?q, block_take_axes b ?q)) (blocks y),
                   phases := map (\<lambda>s. (take_axes s ?q, - 1))
                     (filter (\<lambda>s. sector_phase y s * perm_phase (symmetry y) s (Some ?q) = - 1)
                        (sectors y))\<rparr>)"
    by (rule transpose_closed_True [OF q wfy])
  also have "\<dots> = Inr (x\<lparr>phases := map (\<lambda>s. (s, - 1))
                                   (filter (\<lambda>s. sector_phase x s = - 1) (sectors x))\<rparr>)"
    unfolding ix bl ph by (simp add: y_def)
  finally show ?thesis using ty by blast
qed

text \<open>
  C6: transposing by a permutation \<open>p\<close> and then by its inverse, both with
  \<open>phase=True\<close>, returns the symmetry, total charge, indices and blocks of \<open>x\<close> and a
  phase dictionary with the same entries (as a mapping: the order of the keys may differ);
  the two signs of the round trip multiply to \<open>+1\<close> on every sector.
\<close>

theorem transpose_round_trip:
  assumes "valid_perm (ndim x) p" and "wf_array x" and "phases_ok x"
  shows "\<exists>y z. transpose x (Some p) True = Inr y
           \<and> transpose y (Some (inverse_perm p)) True = Inr z
           \<and> symmetry z = symmetry x \<and> charge_total z = charge_total x
           \<and> indices z = indices x \<and> blocks z = blocks x
           \<and> map_of (phases z) = map_of (phases x)
           \<and> (\<forall>s\<in>set (sectors x).
                perm_phase (symmetry x) s (Some p)
                  * perm_phase (symmetry x) (take_axes s p) (Some (inverse_perm p)) = 1)"
proof -
  let ?z = "x\<lparr>phases := map (\<lambda>s. (s, - 1))
                            (filter (\<lambda>s. sector_phase x s = - 1) (sectors x))\<rparr>"
  obtain y where y: "transpose x (Some p) True = Inr y"
    and z: "transpose y (Some (inverse_perm p)) True = Inr ?z"
    using transpose_round_trip_closed [OF assms] by blast
  have "map_of (phases ?z) k = map_of (phases x) k" for k
    using phases_ok_sector_phase [OF assms(3), of k]
    by (cases "map_of (phases x) k = None") (auto simp: map_of_tagged_filter)
  then have m: "map_of (phases ?z) = map_of (phases x)" by (rule ext)
  have net: "\<forall>s\<in>set (sectors x).
                perm_phase (symmetry x) s (Some p)
                  * perm_phase (symmetry x) (take_axes s p) (Some (inverse_perm p)) = 1"
  proof
    fix s assume "s \<in> set (sectors x)"
    then have "length s = ndim x" using assms(2) by (simp add: wf_array_def list_all_iff)
    from perm_phase_inverse [OF assms(1) this, of "symmetry x"]
      perm_phase_values [of "symmetry x" s "Some p"]
    show "perm_phase (symmetry x) s (Some p)
            * perm_phase (symmetry x) (take_axes s p) (Some (inverse_perm p)) = 1"
      by auto
  qed
  from y z m net show ?thesis
    by (intro exI [of _ y] exI [of _ ?z]) simp
qed

lemma ex_matrix_ok: "valid_perm (ndim ex_matrix) [1, 0]" "wf_array ex_matrix" "phases_ok ex_matrix"
  by (simp_all add: valid_perm_def wf_array_def phases_ok_def ex_matrix_def ndim_def sectors_def)

text \<open>
  The hypotheses of C3 hold of \<open>ex_matrix\<close> and the swap of its two axes, where the odd
  sector's stored \<open>-1\<close> and the \<open>-1\<close> of the swap cancel.
\<close>

theorem transpose_permutes_witness:
  "valid_perm (ndim ex_matrix) [1, 0] \<and> wf_array ex_matrix \<and> phases_ok ex_matrix
   \<and> (\<exists>y. transpose ex_matrix (Some [1, 0]) True = Inr y
          \<and> indices y = [ex_index True, ex_index False]
          \<and> blocks y = [([0, 0], [([0, 0], 2)]), ([1, 1], [([0, 0], 3)])]
          \<and> phases y = [])
   \<and> (\<exists>z. transpose ex_matrix (Some [1, 0]) False = Inr z
          \<and> indices z = [ex_index True, ex_index False]
          \<and> blocks z = [([0, 0], [([0, 0], 2)]), ([1, 1], [([0, 0], 3)])]
          \<and> phases z = [([1, 1], - 1)])"
proof -
  have h: "valid_perm (ndim ex_matrix) [1, 0]" "wf_array ex_matrix" "phases_ok ex_matrix"
    by (simp_all add: valid_perm_def wf_array_def phases_ok_def ex_matrix_def ndim_def
        sectors_def)
  have pp: "perm_phase Z2 [1, 1] (Some [1, 0]) = - 1" "perm_phase Z2 [0, 0] (Some [1, 0]) = 1"
    by (simp_all add: perm_phase_def calc_phase_permutation_def norm_axis_def)
  from transpose_permutes [OF h(1,2)] h pp show ?thesis
    by (simp add: ex_matrix_def sectors_def take_axes_def block_take_axes_def
        sector_phase_def dict_get_def)
qed

lemma phase_resolve_empty: "phases x = [] \<Longrightarrow> phase_resolve x = Inr x"
  by (subst phase_resolve.simps) simp

lemma dict_set_present:
  assumes "distinct (map fst d)" and "k \<in> fst ` set d"
  shows "dict_set d k v = map (\<lambda>(s, b). (s, if s = k then v else b)) d"
  using assms unfolding dict_set_def
proof (induction d)
  case Nil
  then show ?case by simp
next
  case (Cons e d)
  obtain s b where e: "e = (s, b)" by (cases e)
  show ?case
  proof (cases "s = k")
    case True
    then have "k \<notin> fst ` set d" using Cons.prems e by auto
    then have "map (\<lambda>(s, b). (s, if s = k then v else b)) d = d"
      by (intro map_idI) (auto simp: image_iff)
    with True e show ?thesis by simp
  next
    case False
    with Cons e show ?thesis by auto
  qed
qed

lemma resolved_blocks_keys [simp]: "map fst (resolved_blocks ps bs) = map fst bs"
  by (simp add: resolved_blocks_def comp_def case_prod_unfold)

lemma resolved_blocks_Nil [simp]: "resolved_blocks [] bs = bs"
  by (simp add: resolved_blocks_def map_idI)

lemma resolved_blocks_snoc_other:
  assumes "v \<noteq> - 1" and "k \<notin> fst ` set ps"
  shows "resolved_blocks (ps @ [(k, v)]) bs = resolved_blocks ps bs"
  unfolding resolved_blocks_def
proof (rule map_cong [OF refl])
  fix e assume "e \<in> set bs"
  obtain s b where e: "e = (s, b)" by (cases e)
  have "map_of ps k = None" using assms(2) by (simp add: map_of_eq_None_iff)
  then have "map_of (ps @ [(k, v)]) s = Some (- 1) \<longleftrightarrow> map_of ps s = Some (- 1)"
    using assms(1) by (cases "s = k") (auto simp: map_add_def split: option.splits)
  with e show "(case e of (s, b) \<Rightarrow>
                  (s, if map_of (ps @ [(k, v)]) s = Some (- 1) then block_neg b else b))
             = (case e of (s, b) \<Rightarrow> (s, if map_of ps s = Some (- 1) then block_neg b else b))"
    by simp
qed

lemma resolved_blocks_snoc_minus:
  assumes k: "k \<notin> fst ` set ps" and d: "distinct (map fst bs)" and m: "map_of bs k = Some a"
  shows "resolved_blocks (ps @ [(k, - 1)]) bs = resolved_blocks ps (dict_set bs k (block_neg a))"
proof -
  have kin: "k \<in> fst ` set bs" using m by (metis map_of_eq_None_iff option.distinct(1))
  have "resolved_blocks ps (dict_set bs k (block_neg a))
          = map ((\<lambda>(s, b). (s, if map_of ps s = Some (- 1) then block_neg b else b))
                 \<circ> (\<lambda>(s, b). (s, if s = k then block_neg a else b))) bs"
    by (simp add: resolved_blocks_def dict_set_present [OF d kin])
  also have "\<dots> = resolved_blocks (ps @ [(k, - 1)]) bs"
    unfolding resolved_blocks_def
  proof (rule map_cong [OF refl])
    fix e assume ein: "e \<in> set bs"
    obtain s b where e: "e = (s, b)" by (cases e)
    show "((\<lambda>(s, b). (s, if map_of ps s = Some (- 1) then block_neg b else b))
                 \<circ> (\<lambda>(s, b). (s, if s = k then block_neg a else b))) e
          = (case e of (s, b) \<Rightarrow>
               (s, if map_of (ps @ [(k, - 1)]) s = Some (- 1) then block_neg b else b))"
    proof (cases "s = k")
      case True
      have "map_of bs k = Some b" using d ein e True by simp
      with m have "b = a" by simp
      moreover have "map_of ps k = None" using k by (simp add: map_of_eq_None_iff)
      ultimately show ?thesis using e True by (simp add: map_add_def)
    next
      case False
      then have "map_of (ps @ [(k, - 1)]) s = Some (- 1) \<longleftrightarrow> map_of ps s = Some (- 1)"
        by (auto simp: map_add_def split: option.splits)
      with e False show ?thesis by simp
    qed
  qed
  finally show ?thesis by simp
qed

lemma phase_resolve_closed:
  assumes "distinct (map fst (phases x))" and "distinct (map fst (blocks x))"
    and "fst ` set (phases x) \<subseteq> fst ` set (blocks x)"
  shows "phase_resolve x
           = Inr (x\<lparr>blocks := resolved_blocks (phases x) (blocks x), phases := []\<rparr>)"
  using assms
proof (induction "length (phases x)" arbitrary: x)
  case 0
  then show ?case by (simp add: phase_resolve_empty)
next
  case (Suc n)
  then have ne: "phases x \<noteq> []" by auto
  define ps where "ps = butlast (phases x)"
  define k where "k = fst (last (phases x))"
  define v where "v = snd (last (phases x))"
  have px: "phases x = ps @ [(k, v)]"
    using ne by (simp add: ps_def k_def v_def)
  have kfresh: "k \<notin> fst ` set ps" and dps: "distinct (map fst ps)"
    using Suc.prems(1) px by auto
  have kin: "k \<in> fst ` set (blocks x)" using Suc.prems(3) px by auto
  let ?popped = "x\<lparr>phases := ps\<rparr>"
  have lenps: "n = length ps" using Suc.hyps(2) px by simp
  show ?case
  proof (cases "v = - 1")
    case True
    from kin obtain a where a: "map_of (blocks x) k = Some a"
      by (metis map_of_eq_None_iff not_Some_eq)
    let ?x' = "?popped\<lparr>blocks := dict_set (blocks x) k (block_neg a)\<rparr>"
    have keys: "map fst (dict_set (blocks x) k (block_neg a)) = map fst (blocks x)"
      by (simp add: dict_set_present [OF Suc.prems(2) kin] comp_def case_prod_unfold)
    have "phase_resolve ?x'
            = Inr (?x'\<lparr>blocks := resolved_blocks (phases ?x') (blocks ?x'), phases := []\<rparr>)"
    proof (rule Suc.hyps(1))
      show "n = length (phases ?x')" using lenps by simp
      show "distinct (map fst (phases ?x'))" using dps by simp
      show "distinct (map fst (blocks ?x'))" using keys Suc.prems(2) by simp
      have "fst ` set (blocks ?x') = fst ` set (blocks x)"
        using keys by (metis select_convs(4) surjective update_convs(4) set_map)
      then show "fst ` set (phases ?x') \<subseteq> fst ` set (blocks ?x')"
        using Suc.prems(3) px by auto
    qed
    moreover have "phase_resolve x = phase_resolve ?x'"
      using ne True a
      by (subst phase_resolve.simps) (simp add: ps_def [symmetric] k_def [symmetric]
          v_def [symmetric] Let_def)
    ultimately show ?thesis
      using resolved_blocks_snoc_minus [OF kfresh Suc.prems(2) a] True px by simp
  next
    case False
    have "phase_resolve ?popped
            = Inr (?popped\<lparr>blocks := resolved_blocks (phases ?popped) (blocks ?popped),
                            phases := []\<rparr>)"
    proof (rule Suc.hyps(1))
      show "n = length (phases ?popped)" using lenps by simp
      show "distinct (map fst (phases ?popped))" using dps by simp
      show "distinct (map fst (blocks ?popped))" using Suc.prems(2) by simp
      show "fst ` set (phases ?popped) \<subseteq> fst ` set (blocks ?popped)"
        using Suc.prems(3) px by auto
    qed
    moreover have "phase_resolve x = phase_resolve ?popped"
      using ne False
      by (subst phase_resolve.simps) (simp add: ps_def [symmetric] k_def [symmetric]
          v_def [symmetric] Let_def)
    ultimately show ?thesis
      using resolved_blocks_snoc_other [OF False kfresh] px by simp
  qed
qed

lemma phases_ok_signs_in: "phases_ok x \<longleftrightarrow> signs_in (set (sectors x)) (phases x)"
  unfolding phases_ok_def signs_in_def list_all_iff
  by (auto dest: map_of_SomeD)

lemma signs_in_Nil [simp]: "signs_in S []"
  by (simp add: signs_in_def)

lemma signs_in_mono: "signs_in S d \<Longrightarrow> S \<subseteq> T \<Longrightarrow> signs_in T d"
  by (auto simp: signs_in_def)

lemma signs_in_set: "signs_in S d \<Longrightarrow> k \<in> S \<Longrightarrow> signs_in S (dict_set d k (- 1))"
  by (auto simp: signs_in_def dict_set_def distinct_update update_conv' split: if_splits)

lemma signs_in_pop: "signs_in S d \<Longrightarrow> signs_in S (dict_pop d k)"
  by (auto simp: signs_in_def dict_pop_def distinct_delete delete_conv' split: if_splits)

lemma signs_in_get: "signs_in S d \<Longrightarrow> dict_get d k 1 = 1 \<or> dict_get d k 1 = - 1"
  by (auto simp: signs_in_def dict_get_def split: option.splits)

lemma dict_get_set [simp]:
  "dict_get (dict_set d k v) k' dflt = (if k' = k then v else dict_get d k' dflt)"
  by (simp add: dict_get_def dict_set_def update_conv')

lemma dict_get_pop [simp]:
  "dict_get (dict_pop d k) k' dflt = (if k' = k then dflt else dict_get d k' dflt)"
  by (simp add: dict_get_def dict_pop_def delete_conv')

lemma calc_phase_permutation_values:
  "calc_phase_permutation par axes = Inr c \<Longrightarrow> c = 1 \<or> c = - 1"
  by (auto simp: calc_phase_permutation_def Let_def and_then_eq_Inr split: if_splits)

lemma perm_phase_eq: "calc_phase_permutation (map (parity symm) s) axes = Inr c
    \<Longrightarrow> perm_phase symm s axes = c"
  by (simp add: perm_phase_def)

lemma phase_flip_loop_signs:
  "phase_flip_loop symm axs ss ps = Inr r \<Longrightarrow> signs_in S ps \<Longrightarrow> set ss \<subseteq> S
     \<Longrightarrow> signs_in S r"
proof (induction ss arbitrary: ps)
  case Nil
  then show ?case by simp
next
  case (Cons s ss)
  from Cons.prems(1) obtain qs :: "int list" where
    step: "(if sum_list qs mod 2 \<noteq> 0
            then (let new_phase = - dict_get ps s 1
                  in if new_phase = 1
                     then phase_flip_loop symm axs ss (dict_pop ps s)
                     else phase_flip_loop symm axs ss (dict_set ps s new_phase))
            else phase_flip_loop symm axs ss ps) = Inr r"
    by (auto simp: and_then_eq_Inr)
  have sub: "set ss \<subseteq> S" and sin: "s \<in> S" using Cons.prems(3) by simp_all
  from signs_in_get [OF Cons.prems(2), of s] show ?case
  proof
    assume g: "dict_get ps s 1 = 1"
    with step have "phase_flip_loop symm axs ss ps = Inr r
        \<or> phase_flip_loop symm axs ss (dict_set ps s (- 1)) = Inr r"
      by (auto simp: Let_def split: if_splits)
    then show ?thesis
      using Cons.IH [OF _ Cons.prems(2) sub]
        Cons.IH [OF _ signs_in_set [OF Cons.prems(2) sin] sub] by blast
  next
    assume g: "dict_get ps s 1 = - 1"
    with step have "phase_flip_loop symm axs ss ps = Inr r
        \<or> phase_flip_loop symm axs ss (dict_pop ps s) = Inr r"
      by (auto simp: Let_def split: if_splits)
    then show ?thesis
      using Cons.IH [OF _ Cons.prems(2) sub]
        Cons.IH [OF _ signs_in_pop [OF Cons.prems(2)] sub] by blast
  qed
qed

lemma phase_flip_preserves:
  assumes "phases_ok x" and "phase_flip x axs = Inr y"
  shows "phases_ok y"
proof (cases "axs = []")
  case True
  with assms show ?thesis by (simp add: phase_flip_def)
next
  case False
  with assms(2) obtain r where r: "phase_flip_loop (symmetry x) axs (sectors x) (phases x) = Inr r"
    and y: "y = x\<lparr>phases := r\<rparr>"
    by (auto simp: phase_flip_def and_then_eq_Inr)
  from phase_flip_loop_signs [OF r] assms(1) have "signs_in (set (sectors x)) r"
    by (simp add: phases_ok_signs_in)
  then show ?thesis by (simp add: phases_ok_signs_in y sectors_def)
qed

lemma phase_virtual_transpose_loop_signs:
  "phase_virtual_transpose_loop symm axes ss ps = Inr r \<Longrightarrow> signs_in S ps \<Longrightarrow> set ss \<subseteq> S
     \<Longrightarrow> signs_in S r"
proof (induction ss arbitrary: ps)
  case Nil
  then show ?case by simp
next
  case (Cons s ss)
  from Cons.prems(1) obtain c where
    c: "calc_phase_permutation (map (parity symm) s) axes = Inr c" and
    step: "(let phase_new = dict_get ps s 1 * c
            in if phase_new = 1
               then phase_virtual_transpose_loop symm axes ss (dict_pop ps s)
               else phase_virtual_transpose_loop symm axes ss (dict_set ps s phase_new)) = Inr r"
    by (auto simp: and_then_eq_Inr)
  have sub: "set ss \<subseteq> S" and sin: "s \<in> S" using Cons.prems(3) by simp_all
  have "dict_get ps s 1 * c = 1 \<or> dict_get ps s 1 * c = - 1"
    using signs_in_get [OF Cons.prems(2), of s] calc_phase_permutation_values [OF c] by auto
  then have "phase_virtual_transpose_loop symm axes ss (dict_pop ps s) = Inr r
        \<or> phase_virtual_transpose_loop symm axes ss (dict_set ps s (- 1)) = Inr r"
    using step by (auto simp: Let_def split: if_splits)
  then show ?case
    using Cons.IH [OF _ signs_in_pop [OF Cons.prems(2)] sub]
      Cons.IH [OF _ signs_in_set [OF Cons.prems(2) sin] sub] by blast
qed

lemma phase_virtual_transpose_preserves:
  assumes "phases_ok x" and "phase_virtual_transpose x axes = Inr y"
  shows "phases_ok y"
proof -
  from assms(2) obtain r where
    r: "phase_virtual_transpose_loop (symmetry x) axes (sectors x) (phases x) = Inr r"
    and y: "y = x\<lparr>phases := r\<rparr>"
    by (auto simp: phase_virtual_transpose_def and_then_eq_Inr)
  from phase_virtual_transpose_loop_signs [OF r] assms(1) have "signs_in (set (sectors x)) r"
    by (simp add: phases_ok_signs_in)
  then show ?thesis by (simp add: phases_ok_signs_in y sectors_def)
qed

lemma phase_virtual_transpose_loop_get:
  "phase_virtual_transpose_loop symm axes ss ps = Inr r \<Longrightarrow> distinct ss
     \<Longrightarrow> dict_get r s 1 = (if s \<in> set ss then dict_get ps s 1 * perm_phase symm s axes
                           else dict_get ps s 1)"
proof (induction ss arbitrary: ps)
  case Nil
  then show ?case by simp
next
  case (Cons a ss)
  from Cons.prems(1) obtain c where
    c: "calc_phase_permutation (map (parity symm) a) axes = Inr c" and
    step: "(let phase_new = dict_get ps a 1 * c
            in if phase_new = 1
               then phase_virtual_transpose_loop symm axes ss (dict_pop ps a)
               else phase_virtual_transpose_loop symm axes ss (dict_set ps a phase_new)) = Inr r"
    by (auto simp: and_then_eq_Inr)
  have pc: "perm_phase symm a axes = c" using c by (rule perm_phase_eq)
  have d: "distinct ss" and an: "a \<notin> set ss" using Cons.prems(2) by simp_all
  show ?case
  proof (cases "dict_get ps a 1 * c = 1")
    case True
    with step have "phase_virtual_transpose_loop symm axes ss (dict_pop ps a) = Inr r"
      by simp
    from Cons.IH [OF this d] True pc an show ?thesis by auto
  next
    case False
    with step have
      "phase_virtual_transpose_loop symm axes ss (dict_set ps a (dict_get ps a 1 * c)) = Inr r"
      by (simp add: Let_def)
    from Cons.IH [OF this d] False pc an show ?thesis by auto
  qed
qed

lemma phase_virtual_transpose_loop_total:
  assumes "list_all (\<lambda>a. 0 \<le> a \<and> a < int n) p" and "\<forall>s\<in>set ss. length s = n"
  shows "\<exists>r. phase_virtual_transpose_loop symm (Some p) ss ps = Inr r"
  using assms(2)
proof (induction ss arbitrary: ps)
  case Nil
  then show ?case by simp
next
  case (Cons s ss)
  have "calc_phase_permutation (map (parity symm) s) (Some p)
          = Inr (perm_phase symm s (Some p))"
    using assms(1) Cons.prems by (intro perm_phase_in_range) simp
  with Cons show ?case by (simp add: Let_def)
qed

lemma dict_set_keys: "fst ` set (dict_set d k v) = insert k (fst ` set d)"
  by (simp add: dict_set_def dom_update)

lemma transpose_blocks_keys:
  "transpose_blocks bs p acc = Inr r
     \<Longrightarrow> fst ` set r = fst ` set acc \<union> {k. \<exists>s\<in>fst ` set bs. permuted s p = Inr k}"
proof (induction bs arbitrary: acc)
  case Nil
  then show ?case by simp
next
  case (Cons e bs)
  obtain s b where e: "e = (s, b)" by (cases e)
  from Cons.prems e obtain k t where k: "permuted s p = Inr k"
    and r: "transpose_blocks bs p (dict_set acc k t) = Inr r"
    by (auto simp: and_then_eq_Inr)
  from Cons.IH [OF r] k e show ?case
    by (auto simp: dict_set_keys)
qed

lemma transpose_phases_signs:
  "transpose_phases symm old p ss acc = Inr r \<Longrightarrow> signs_in T acc
     \<Longrightarrow> {k. \<exists>s\<in>set ss. permuted s p = Inr k} \<subseteq> T \<Longrightarrow> signs_in T r"
proof (induction ss arbitrary: acc)
  case Nil
  then show ?case by simp
next
  case (Cons s ss)
  have sub: "{k. \<exists>s\<in>set ss. permuted s p = Inr k} \<subseteq> T" using Cons.prems(3) by auto
  from Cons.prems(1) obtain c where
    step: "(if dict_get old s 1 * c = - 1
            then and_then (permuted s p) (\<lambda>k.
                   transpose_phases symm old p ss (dict_set acc k (- 1)))
            else transpose_phases symm old p ss acc) = Inr r"
    by (auto simp: and_then_eq_Inr Let_def)
  show ?case
  proof (cases "dict_get old s 1 * c = - 1")
    case True
    with step obtain k where k: "permuted s p = Inr k"
      and r: "transpose_phases symm old p ss (dict_set acc k (- 1)) = Inr r"
      by (auto simp: and_then_eq_Inr)
    have "k \<in> T" using k Cons.prems(3) by auto
    from Cons.IH [OF r signs_in_set [OF Cons.prems(2) this] sub] show ?thesis .
  next
    case False
    with step have "transpose_phases symm old p ss acc = Inr r" by simp
    from Cons.IH [OF this Cons.prems(2) sub] show ?thesis .
  qed
qed

lemma rekey_phases_signs:
  "rekey_phases d p acc = Inr r \<Longrightarrow> signs_in T acc \<Longrightarrow> \<forall>e\<in>set d. snd e = - 1
     \<Longrightarrow> {k. \<exists>s\<in>fst ` set d. permuted s p = Inr k} \<subseteq> T \<Longrightarrow> signs_in T r"
proof (induction d arbitrary: acc)
  case Nil
  then show ?case by simp
next
  case (Cons e d)
  obtain s v where e: "e = (s, v)" by (cases e)
  have v: "v = - 1" using Cons.prems(3) e by simp
  from Cons.prems(1) e obtain k where k: "permuted s p = Inr k"
    and r: "rekey_phases d p (dict_set acc k v) = Inr r"
    by (auto simp: and_then_eq_Inr)
  have "k \<in> T" using k e Cons.prems(4) by auto
  then have "signs_in T (dict_set acc k v)"
    unfolding v using Cons.prems(2) by (intro signs_in_set)
  from Cons.IH [OF r this] Cons.prems(3,4) show ?case by auto
qed

lemma transpose_preserves:
  assumes ok: "phases_ok x" and t: "transpose x axes phase = Inr y"
  shows "phases_ok y"
proof -
  define p where "p = (case axes of None \<Rightarrow> rev (map int [0..<ndim x]) | Some a \<Rightarrow> a)"
  let ?T = "{k. \<exists>s\<in>set (sectors x). permuted s p = Inr k}"
  have "and_then
      (if phase then transpose_phases (symmetry x) (phases x) p (sectors x) []
       else rekey_phases (phases x) p [])
      (\<lambda>ps. symmetric_transpose (x\<lparr>phases := ps\<rparr>) p) = Inr y"
    using t unfolding transpose_def Let_def p_def .
  then obtain ps where
    ps: "(if phase then transpose_phases (symmetry x) (phases x) p (sectors x) []
          else rekey_phases (phases x) p []) = Inr ps"
    and st: "symmetric_transpose (x\<lparr>phases := ps\<rparr>) p = Inr y"
    unfolding and_then_eq_Inr by blast
  from st obtain ixs bs where bs: "transpose_blocks (blocks x) p [] = Inr bs"
    and y: "y = x\<lparr>phases := ps, indices := ixs, blocks := bs\<rparr>"
    by (auto simp: symmetric_transpose_def and_then_eq_Inr)
  have keys: "set (sectors y) = ?T"
    using transpose_blocks_keys [OF bs] by (simp add: y sectors_def)
  have "signs_in ?T ps"
  proof (cases phase)
    case True
    with ps have "transpose_phases (symmetry x) (phases x) p (sectors x) [] = Inr ps" by simp
    then show ?thesis by (rule transpose_phases_signs) simp_all
  next
    case False
    with ps have r: "rekey_phases (phases x) p [] = Inr ps" by simp
    have vals: "\<forall>e\<in>set (phases x). snd e = - 1"
      using ok by (auto simp: phases_ok_def list_all_iff)
    have "fst ` set (phases x) \<subseteq> set (sectors x)"
      using ok by (auto simp: phases_ok_def list_all_iff)
    then have "{k. \<exists>s\<in>fst ` set (phases x). permuted s p = Inr k} \<subseteq> ?T" by blast
    with r vals show ?thesis by (intro rekey_phases_signs [OF r]) simp_all
  qed
  then show ?thesis by (simp add: phases_ok_signs_in keys) (simp add: y)
qed

lemma conj_loop_invariant_False:
  "conj_loop symm False axs items bs ps = Inr (bs', ps') \<Longrightarrow> fst ` set items \<subseteq> fst ` set bs
     \<Longrightarrow> fst ` set bs' = fst ` set bs \<and> ps' = ps"
proof (induction items arbitrary: bs)
  case Nil
  then show ?case by simp
next
  case (Cons e items)
  obtain s a where e: "e = (s, a)" by (cases e)
  let ?bs = "dict_set bs s (block_conj a)"
  have keys: "fst ` set ?bs = fst ` set bs" using Cons.prems(2) e by (auto simp: dict_set_keys)
  have r: "conj_loop symm False axs items ?bs ps = Inr (bs', ps')"
    using Cons.prems(1) e by (simp add: Let_def)
  from Cons.IH [OF r] Cons.prems(2) keys show ?case by simp
qed

lemma conj_loop_invariant_True:
  "conj_loop symm True axs items bs ps = Inr (bs', ps') \<Longrightarrow> fst ` set items \<subseteq> fst ` set bs
     \<Longrightarrow> signs_in (fst ` set bs) ps
     \<Longrightarrow> fst ` set bs' = fst ` set bs \<and> signs_in (fst ` set bs) ps'"
proof (induction items arbitrary: bs ps)
  case Nil
  then show ?case by simp
next
  case (Cons e items)
  obtain s a where e: "e = (s, a)" by (cases e)
  let ?bs = "dict_set bs s (block_conj a)"
  have sin: "s \<in> fst ` set bs" using Cons.prems(2) e by simp
  have keys: "fst ` set ?bs = fst ` set bs" using sin by (auto simp: dict_set_keys)
  have sub: "fst ` set items \<subseteq> fst ` set ?bs" using Cons.prems(2) keys by simp
  from Cons.prems(1) e obtain c and qs :: "int list" where
    c: "calc_phase_permutation (map (parity symm) s) None = Inr c" and
    step: "(let phase_new = dict_get ps s 1 * c * (if sum_list qs mod 2 \<noteq> 0 then - 1 else 1)
            in if phase_new = 1
               then conj_loop symm True axs items ?bs (dict_pop ps s)
               else conj_loop symm True axs items ?bs (dict_set ps s phase_new))
           = Inr (bs', ps')"
    by (auto simp: Let_def and_then_eq_Inr)
  define f where "f = dict_get ps s 1 * c * (if sum_list qs mod 2 \<noteq> 0 then - 1 else 1)"
  have "f = 1 \<or> f = - 1"
    using signs_in_get [OF Cons.prems(3), of s] calc_phase_permutation_values [OF c]
    by (auto simp: f_def)
  then have "\<exists>ps1. conj_loop symm True axs items ?bs ps1 = Inr (bs', ps')
               \<and> signs_in (fst ` set bs) ps1"
  proof
    assume "f = 1"
    with step [unfolded Let_def f_def [symmetric]]
    have "conj_loop symm True axs items ?bs (dict_pop ps s) = Inr (bs', ps')"
      by simp
    with signs_in_pop [OF Cons.prems(3)] show ?thesis by blast
  next
    assume "f = - 1"
    with step [unfolded Let_def f_def [symmetric]]
    have "conj_loop symm True axs items ?bs (dict_set ps s (- 1)) = Inr (bs', ps')"
      by simp
    with signs_in_set [OF Cons.prems(3) sin] show ?thesis by blast
  qed
  then obtain ps1 where r: "conj_loop symm True axs items ?bs ps1 = Inr (bs', ps')"
    and s1: "signs_in (fst ` set ?bs) ps1" using keys by auto
  from Cons.IH [OF r sub s1] keys show ?case by simp
qed

lemma conj_loop_invariant:
  assumes "conj_loop symm phase axs items bs ps = Inr (bs', ps')"
    and "fst ` set items \<subseteq> fst ` set bs" and "signs_in (fst ` set bs) ps"
  shows "fst ` set bs' = fst ` set bs \<and> signs_in (fst ` set bs) ps'"
proof (cases phase)
  case True
  from assms(1) have "conj_loop symm True axs items bs ps = Inr (bs', ps')"
    using True by simp
  then show ?thesis using assms(2,3) by (rule conj_loop_invariant_True)
next
  case False
  from assms(1) have "conj_loop symm False axs items bs ps = Inr (bs', ps')"
    using False by simp
  from conj_loop_invariant_False [OF this assms(2)] assms(3) show ?thesis by simp
qed

lemma conj_preserves:
  assumes ok: "phases_ok x" and c: "conj x phase = Inr y"
  shows "phases_ok y"
proof -
  from c obtain bs ps where
    l: "conj_loop (symmetry x) phase (axes_with_flow True (map index_conj (indices x)))
          (blocks x) (blocks x) (phases x) = Inr (bs, ps)"
    and y: "y = x\<lparr>indices := map index_conj (indices x), blocks := bs, phases := ps\<rparr>"
    by (auto simp: conj_def Let_def and_then_eq_Inr)
  have "signs_in (fst ` set (blocks x)) (phases x)"
    using ok by (simp add: phases_ok_signs_in sectors_def)
  from conj_loop_invariant [OF l subset_refl this]
  show ?thesis by (simp add: phases_ok_signs_in y sectors_def)
qed

lemma dagger_loop_signs:
  "dagger_loop items old nb np = (nb', np') \<Longrightarrow> signs_in (fst ` set nb) np
     \<Longrightarrow> signs_in (fst ` set nb') np'"
proof (induction items arbitrary: old nb np)
  case Nil
  then show ?case by simp
next
  case (Cons e items)
  obtain s a where e: "e = (s, a)" by (cases e)
  let ?nb = "dict_set nb (rev s) (block_reverse (block_conj a))"
  let ?np = "if dict_get old s 1 = - 1 then dict_set np (rev s) (- 1) else np"
  have r: "dagger_loop items (dict_pop old s) ?nb ?np = (nb', np')"
    using Cons.prems(1) e by (simp add: Let_def)
  have "signs_in (fst ` set ?nb) np"
    using Cons.prems(2) by (rule signs_in_mono) (auto simp: dict_set_keys)
  then have "signs_in (fst ` set ?nb) ?np"
    using signs_in_set [of "fst ` set ?nb" np "rev s"] by (simp add: dict_set_keys)
  from Cons.IH [OF r this] show ?case .
qed

lemma dagger_preserves:
  assumes d: "dagger x phase = Inr y"
  shows "phases_ok y"
proof -
  obtain nb np where l: "dagger_loop (blocks x) (phases x) [] [] = (nb, np)"
    by (cases "dagger_loop (blocks x) (phases x) [] []")
  let ?new = "x\<lparr>indices := map index_conj (rev (indices x)), blocks := nb, phases := np\<rparr>"
  have ok: "phases_ok ?new"
    using dagger_loop_signs [OF l] by (simp add: phases_ok_signs_in sectors_def)
  from d l have "(if phase then phase_flip ?new
                    (axes_with_flow True (map index_conj (rev (indices x)))) else Inr ?new) = Inr y"
    by (simp add: dagger_def Let_def)
  then show ?thesis
    using ok phase_flip_preserves [OF ok] by (cases phase) auto
qed

lemma phase_resolve_step_minus:
  assumes "phases x = ps @ [(k, - 1)]" and "map_of (blocks x) k = Some a"
  shows "phase_resolve x
           = phase_resolve (x\<lparr>phases := ps, blocks := dict_set (blocks x) k (block_neg a)\<rparr>)"
  using assms by (subst phase_resolve.simps) simp

lemma phase_resolve_step_missing:
  assumes "phases x = ps @ [(k, - 1)]" and "map_of (blocks x) k = None"
  shows "phase_resolve x = Inl KeyError"
  using assms by (subst phase_resolve.simps) simp

lemma phase_resolve_step_other:
  assumes "phases x = ps @ [(k, v)]" and "v \<noteq> - 1"
  shows "phase_resolve x = phase_resolve (x\<lparr>phases := ps\<rparr>)"
  using assms by (subst phase_resolve.simps) simp

lemma phase_resolve_phases:
  "phase_resolve x = Inr y \<Longrightarrow> phases y = []"
proof (induction "length (phases x)" arbitrary: x)
  case 0
  then show ?case by (simp add: phase_resolve_empty)
next
  case (Suc n)
  then have ne: "phases x \<noteq> []" by auto
  define ps where "ps = butlast (phases x)"
  define k where "k = fst (last (phases x))"
  define v where "v = snd (last (phases x))"
  have px: "phases x = ps @ [(k, v)]"
    using ne by (simp add: ps_def k_def v_def)
  have len: "n = length ps" using Suc.hyps(2) px by simp
  show ?case
  proof (cases "v = - 1")
    case True
    show ?thesis
    proof (cases "map_of (blocks x) k")
      case None
      with phase_resolve_step_missing [of x ps k] px True Suc.prems show ?thesis by simp
    next
      case (Some a)
      let ?x' = "x\<lparr>phases := ps, blocks := dict_set (blocks x) k (block_neg a)\<rparr>"
      have "phase_resolve ?x' = Inr y"
        using phase_resolve_step_minus [of x ps k a] px True Some Suc.prems by simp
      moreover have "n = length (phases ?x')" using len by simp
      ultimately show ?thesis by (rule Suc.hyps(1) [rotated])
    qed
  next
    case False
    let ?x' = "x\<lparr>phases := ps\<rparr>"
    have "phase_resolve ?x' = Inr y"
      using phase_resolve_step_other [of x ps k v] px False Suc.prems by simp
    moreover have "n = length (phases ?x')" using len by simp
    ultimately show ?thesis by (rule Suc.hyps(1) [rotated])
  qed
qed

lemma phases_ok_empty: "phases y = [] \<Longrightarrow> phases_ok y"
  by (simp add: phases_ok_def)

lemma fuse_delegates_resolved:
  assumes "fuse fuse_perm symmetric_fuse x axes_groups = Inr r"
  shows "\<exists>new groups. symmetric_fuse new groups = Inr r \<and> phases new = []"
proof -
  let ?perm = "fuse_perm axes_groups (flows x)"
  from assms obtain n1 where
    "and_then (map_res (map_res (py_index ?perm)) axes_groups) (\<lambda>axes_groups.
         and_then (fuse_groups n1 axes_groups [] None) (\<lambda>(axes_flip, virtual_perm).
         and_then (if axes_flip \<noteq> [] then phase_flip n1 axes_flip else Inr n1) (\<lambda>new.
         and_then (case virtual_perm of
                     None \<Rightarrow> Inr new
                   | Some vp \<Rightarrow> phase_virtual_transpose new (Some vp)) (\<lambda>new.
         and_then (phase_resolve new) (\<lambda>new.
           symmetric_fuse new axes_groups))))) = Inr r"
    unfolding fuse_def Let_def and_then_eq_Inr by blast
  then obtain groups fv where
    "(case fv of (axes_flip, virtual_perm) \<Rightarrow>
         and_then (if axes_flip \<noteq> [] then phase_flip n1 axes_flip else Inr n1) (\<lambda>new.
         and_then (case virtual_perm of
                     None \<Rightarrow> Inr new
                   | Some vp \<Rightarrow> phase_virtual_transpose new (Some vp)) (\<lambda>new.
         and_then (phase_resolve new) (\<lambda>new.
           symmetric_fuse new groups)))) = Inr r"
    unfolding and_then_eq_Inr by blast
  then obtain axes_flip virtual_perm where
    "and_then (if axes_flip \<noteq> [] then phase_flip n1 axes_flip else Inr n1) (\<lambda>new.
         and_then (case virtual_perm of
                     None \<Rightarrow> Inr new
                   | Some vp \<Rightarrow> phase_virtual_transpose new (Some vp)) (\<lambda>new.
         and_then (phase_resolve new) (\<lambda>new.
           symmetric_fuse new groups))) = Inr r"
    by (cases fv) simp
  then obtain n2 where
    "and_then (case virtual_perm of
                     None \<Rightarrow> Inr n2
                   | Some vp \<Rightarrow> phase_virtual_transpose n2 (Some vp)) (\<lambda>new.
         and_then (phase_resolve new) (\<lambda>new.
           symmetric_fuse new groups)) = Inr r"
    unfolding and_then_eq_Inr [of "if axes_flip \<noteq> [] then phase_flip n1 axes_flip else Inr n1"]
    by blast
  then obtain n3 where
    "and_then (phase_resolve n3) (\<lambda>new. symmetric_fuse new groups) = Inr r"
    unfolding and_then_eq_Inr [of "case virtual_perm of
                     None \<Rightarrow> Inr n2
                   | Some vp \<Rightarrow> phase_virtual_transpose n2 (Some vp)"]
    by blast
  then obtain n4 where "phase_resolve n3 = Inr n4" and "symmetric_fuse n4 groups = Inr r"
    unfolding and_then_eq_Inr by blast
  with phase_resolve_phases [of n3 n4] show ?thesis by blast
qed

text \<open>
  C4: for a permutation \<open>p\<close> of the axes, \<open>phase_virtual_transpose x p\<close> leaves the
  indices, the sector keys and the blocks as they are, and the phase it leaves at a
  sector \<open>s\<close> is the phase that \<open>transpose x p True\<close> leaves at the permuted key of
  \<open>s\<close>: the stored phase of \<open>s\<close> times \<open>calc_phase_permutation\<close> of its parities.
\<close>

theorem phase_virtual_transpose_matches_transpose:
  assumes p: "valid_perm (ndim x) p" and wf: "wf_array x" and ok: "phases_ok x"
  shows "\<exists>y t. phase_virtual_transpose x (Some p) = Inr y
           \<and> transpose x (Some p) True = Inr t
           \<and> indices y = indices x \<and> blocks y = blocks x
           \<and> (\<forall>s\<in>set (sectors x).
                 sector_phase y s = sector_phase t (take_axes s p)
                 \<and> sector_phase y s = sector_phase x s * perm_phase (symmetry x) s (Some p))"
proof -
  let ?ps = "map (\<lambda>s. (take_axes s p, - 1 :: int))
               (filter (\<lambda>s. sector_phase x s * perm_phase (symmetry x) s (Some p) = - 1)
                  (sectors x))"
  let ?t = "x\<lparr>indices := take_axes (indices x) p,
               blocks := map (\<lambda>(s, b). (take_axes s p, block_take_axes b p)) (blocks x),
               phases := ?ps\<rparr>"
  have rng: "list_all (\<lambda>a. 0 \<le> a \<and> a < int (ndim x)) p"
    using p by (simp add: valid_perm_def)
  have len: "\<forall>s\<in>set (sectors x). length s = ndim x"
    using wf by (simp add: wf_array_def list_all_iff)
  have d: "distinct (sectors x)" using wf by (simp add: wf_array_def)
  obtain r where r: "phase_virtual_transpose_loop (symmetry x) (Some p) (sectors x) (phases x) = Inr r"
    using phase_virtual_transpose_loop_total [OF rng len] by blast
  let ?y = "x\<lparr>phases := r\<rparr>"
  have y: "phase_virtual_transpose x (Some p) = Inr ?y"
    using r by (simp add: phase_virtual_transpose_def)
  have t: "transpose x (Some p) True = Inr ?t"
    by (rule transpose_closed_True [OF p wf])
  have "sector_phase ?y s = sector_phase ?t (take_axes s p)
          \<and> sector_phase ?y s = sector_phase x s * perm_phase (symmetry x) s (Some p)"
    if s: "s \<in> set (sectors x)" for s
  proof -
    have "sector_phase ?y s = sector_phase x s * perm_phase (symmetry x) s (Some p)"
      using phase_virtual_transpose_loop_get [OF r d, of s] s by (simp add: sector_phase_def)
    moreover have "sector_phase ?t (take_axes s p)
                     = sector_phase x s * perm_phase (symmetry x) s (Some p)"
      using transposed_sector_phase [OF p wf ok s] by (simp add: sector_phase_def)
    ultimately show ?thesis by simp
  qed
  with y t show ?thesis
    by (rule_tac x = ?y in exI, rule_tac x = ?t in exI) simp
qed

text \<open>
  The hypotheses of C4 hold of \<open>ex_matrix\<close> and the swap of its two axes.
\<close>

theorem phase_virtual_transpose_matches_transpose_witness:
  "valid_perm (ndim ex_matrix) [1, 0] \<and> wf_array ex_matrix \<and> phases_ok ex_matrix
   \<and> (\<exists>y t. phase_virtual_transpose ex_matrix (Some [1, 0]) = Inr y
          \<and> transpose ex_matrix (Some [1, 0]) True = Inr t
          \<and> indices y = indices ex_matrix \<and> blocks y = blocks ex_matrix
          \<and> sector_phase y [1, 1] = sector_phase t [1, 1]
          \<and> sector_phase y [1, 1] = 1)"
proof -
  have h: "valid_perm (ndim ex_matrix) [1, 0]" "wf_array ex_matrix" "phases_ok ex_matrix"
    by (simp_all add: valid_perm_def wf_array_def phases_ok_def ex_matrix_def ndim_def
        sectors_def)
  have e: "sectors ex_matrix = [[0, 0], [1, 1]]" "take_axes [1, 1] [1, 0] = [1, 1 :: int]"
    "sector_phase ex_matrix [1, 1] = - 1" "perm_phase Z2 [1, 1] (Some [1, 0]) = - 1"
    "symmetry ex_matrix = Z2"
    by (simp_all add: ex_matrix_def sectors_def take_axes_def sector_phase_def dict_get_def
        perm_phase_def calc_phase_permutation_def norm_axis_def)
  from phase_virtual_transpose_matches_transpose [OF h] obtain y t where
    "phase_virtual_transpose ex_matrix (Some [1, 0]) = Inr y"
    "transpose ex_matrix (Some [1, 0]) True = Inr t"
    "indices y = indices ex_matrix" "blocks y = blocks ex_matrix"
    "\<forall>s\<in>set (sectors ex_matrix).
        sector_phase y s = sector_phase t (take_axes s [1, 0])
        \<and> sector_phase y s
            = sector_phase ex_matrix s * perm_phase (symmetry ex_matrix) s (Some [1, 0])"
    by blast
  then have "phase_virtual_transpose ex_matrix (Some [1, 0]) = Inr y
          \<and> transpose ex_matrix (Some [1, 0]) True = Inr t
          \<and> indices y = indices ex_matrix \<and> blocks y = blocks ex_matrix
          \<and> sector_phase y [1, 1] = sector_phase t [1, 1]
          \<and> sector_phase y [1, 1] = 1"
    using e by simp
  then have "\<exists>y t. phase_virtual_transpose ex_matrix (Some [1, 0]) = Inr y
          \<and> transpose ex_matrix (Some [1, 0]) True = Inr t
          \<and> indices y = indices ex_matrix \<and> blocks y = blocks ex_matrix
          \<and> sector_phase y [1, 1] = sector_phase t [1, 1]
          \<and> sector_phase y [1, 1] = 1"
    by (rule_tac x = y in exI, rule_tac x = t in exI)
  with h show ?thesis by (simp only: simp_thms)
qed

text \<open>
  C7: on an array whose phase keys are distinct sectors of the block dictionary,
  \<open>phase_resolve\<close> returns; the block of every sector with a buffered \<open>-1\<close> has been
  negated and every other block is unchanged; the phase dictionary is empty; and a second
  \<open>phase_resolve\<close> returns the same array.
\<close>

theorem phase_resolve_negates_and_clears:
  assumes "distinct (sectors x)" and "distinct (map fst (phases x))"
    and "set (map fst (phases x)) \<subseteq> set (sectors x)"
  shows "\<exists>y. phase_resolve x = Inr y
           \<and> phases y = []
           \<and> blocks y = map (\<lambda>(s, b). (s, if map_of (phases x) s = Some (- 1)
                                          then block_neg b else b)) (blocks x)
           \<and> indices y = indices x \<and> charge_total y = charge_total x
           \<and> symmetry y = symmetry x
           \<and> phase_resolve y = Inr y"
proof -
  let ?y = "x\<lparr>blocks := resolved_blocks (phases x) (blocks x), phases := []\<rparr>"
  have "phase_resolve x = Inr ?y"
    using assms by (intro phase_resolve_closed) (simp_all add: sectors_def)
  moreover have "phase_resolve ?y = Inr ?y" by (rule phase_resolve_empty) simp
  ultimately show ?thesis
    by (intro exI [of _ ?y]) (simp add: resolved_blocks_def)
qed

text \<open>
  The hypotheses of C7 hold of \<open>ex_matrix\<close>, whose odd block \<open>3\<close> becomes \<open>-3\<close>.
\<close>

theorem phase_resolve_negates_and_clears_witness:
  "distinct (sectors ex_matrix) \<and> distinct (map fst (phases ex_matrix))
   \<and> set (map fst (phases ex_matrix)) \<subseteq> set (sectors ex_matrix)
   \<and> (\<exists>y. phase_resolve ex_matrix = Inr y \<and> phases y = []
          \<and> blocks y = [([0, 0], [([0, 0], 2)]), ([1, 1], [([0, 0], - 3)])]
          \<and> phase_resolve y = Inr y)"
proof -
  have h: "distinct (sectors ex_matrix)" "distinct (map fst (phases ex_matrix))"
    "set (map fst (phases ex_matrix)) \<subseteq> set (sectors ex_matrix)"
    by (simp_all add: ex_matrix_def sectors_def)
  from phase_resolve_negates_and_clears [OF h] obtain y where
    "phase_resolve ex_matrix = Inr y" "phases y = []"
    "blocks y = map (\<lambda>(s, b). (s, if map_of (phases ex_matrix) s = Some (- 1)
                                   then block_neg b else b)) (blocks ex_matrix)"
    "phase_resolve y = Inr y"
    by blast
  with h show ?thesis
    by (intro conjI exI [of _ y]) (simp_all add: ex_matrix_def block_neg_def)
qed

text \<open>
  C8: each of \<open>transpose\<close>, \<open>phase_flip\<close>, \<open>phase_virtual_transpose\<close>, \<open>conj\<close>,
  \<open>dagger\<close> and \<open>phase_resolve\<close>, applied to an array whose phase dictionary stores only
  \<open>-1\<close> under keys that are sectors, returns an array with the same property; and
  \<open>fuse\<close> hands such an array to the fuse of \<open>SymmetricArray\<close>, whose result it returns.
\<close>

theorem phase_invariant_preserved:
  assumes "phases_ok x"
  shows "(transpose x axes phase = Inr y \<longrightarrow> phases_ok y)
       \<and> (phase_flip x axs = Inr y \<longrightarrow> phases_ok y)
       \<and> (phase_virtual_transpose x axes = Inr y \<longrightarrow> phases_ok y)
       \<and> (conj x phase = Inr y \<longrightarrow> phases_ok y)
       \<and> (dagger x phase = Inr y \<longrightarrow> phases_ok y)
       \<and> (phase_resolve x = Inr y \<longrightarrow> phases_ok y)
       \<and> (fuse fuse_perm symmetric_fuse x axes_groups = Inr r \<longrightarrow>
            (\<exists>new groups. symmetric_fuse new groups = Inr r \<and> phases_ok new))"
proof (intro conjI impI)
  assume "transpose x axes phase = Inr y"
  with assms show "phases_ok y" by (rule transpose_preserves)
next
  assume "phase_flip x axs = Inr y"
  with assms show "phases_ok y" by (rule phase_flip_preserves)
next
  assume "phase_virtual_transpose x axes = Inr y"
  with assms show "phases_ok y" by (rule phase_virtual_transpose_preserves)
next
  assume "conj x phase = Inr y"
  with assms show "phases_ok y" by (rule conj_preserves)
next
  assume "dagger x phase = Inr y"
  then show "phases_ok y" by (rule dagger_preserves)
next
  assume "phase_resolve x = Inr y"
  then have "phases y = []" by (rule phase_resolve_phases)
  then show "phases_ok y" by (rule phases_ok_empty)
next
  assume "fuse fuse_perm symmetric_fuse x axes_groups = Inr r"
  from fuse_delegates_resolved [OF this] phases_ok_empty
  show "\<exists>new groups. symmetric_fuse new groups = Inr r \<and> phases_ok new" by blast
qed

text \<open>
  The hypothesis of C8 holds of \<open>ex_matrix\<close>; the operations return on it, and their
  results satisfy the invariant.
\<close>

theorem phase_invariant_preserved_witness:
  "phases_ok ex_matrix
   \<and> transpose ex_matrix None True = Inr (ex_conj\<lparr>phases := []\<rparr>)
   \<and> phases_ok (ex_conj\<lparr>phases := []\<rparr>)
   \<and> phase_flip ex_matrix [0] = Inr (ex_matrix\<lparr>phases := []\<rparr>)
   \<and> phase_virtual_transpose ex_matrix None = Inr (ex_matrix\<lparr>phases := []\<rparr>)
   \<and> phases_ok (ex_matrix\<lparr>phases := []\<rparr>)
   \<and> conj ex_matrix True = Inr ex_conj
   \<and> dagger ex_conj False = Inr ex_conj
   \<and> phases_ok ex_conj"
proof -
  have h: "phases_ok ex_matrix"
    by (simp add: phases_ok_def ex_matrix_def sectors_def)
  have e1: "transpose ex_matrix None True = Inr (ex_conj\<lparr>phases := []\<rparr>)" by code_simp
  have e2: "phase_flip ex_matrix [0] = Inr (ex_matrix\<lparr>phases := []\<rparr>)" by code_simp
  have e3: "phase_virtual_transpose ex_matrix None = Inr (ex_matrix\<lparr>phases := []\<rparr>)"
    by code_simp
  have e4: "conj ex_matrix True = Inr ex_conj" by code_simp
  have e5: "dagger ex_conj False = Inr ex_conj" by code_simp
  note inv = phase_invariant_preserved [OF h]
  have 1: "phases_ok (ex_conj\<lparr>phases := []\<rparr>)"
    using inv [THEN conjunct1, rule_format, OF e1] .
  have 2: "phases_ok (ex_matrix\<lparr>phases := []\<rparr>)"
    using inv [THEN conjunct2, THEN conjunct1, rule_format, OF e2] .
  have 3: "phases_ok ex_conj"
    using inv [THEN conjunct2, THEN conjunct2, THEN conjunct2, THEN conjunct1, rule_format, OF e4] .
  from h e1 e2 e3 e4 e5 1 2 3 show ?thesis by (simp only: simp_thms)
qed

text \<open>
  The hypotheses of C6 hold of \<open>ex_tensor\<close> and the cyclic permutation \<open>(1, 2, 0)\<close>,
  whose inverse is \<open>(2, 0, 1)\<close>.
\<close>

theorem transpose_round_trip_witness:
  "valid_perm (ndim ex_tensor) [1, 2, 0] \<and> wf_array ex_tensor \<and> phases_ok ex_tensor
   \<and> inverse_perm [1, 2, 0] = [2, 0, 1]
   \<and> (\<exists>y z. transpose ex_tensor (Some [1, 2, 0]) True = Inr y
          \<and> transpose y (Some [2, 0, 1]) True = Inr z
          \<and> indices z = indices ex_tensor \<and> blocks z = blocks ex_tensor
          \<and> map_of (phases z) = map_of (phases ex_tensor))"
proof -
  have h: "valid_perm (ndim ex_tensor) [1, 2, 0]" "wf_array ex_tensor" "phases_ok ex_tensor"
    by (simp_all add: valid_perm_def wf_array_def phases_ok_def ex_tensor_def ndim_def
        sectors_def)
  have i: "inverse_perm [1, 2, 0] = [2, 0, 1]" by code_simp
  from transpose_round_trip [OF h] obtain y z where
    "transpose ex_tensor (Some [1, 2, 0]) True = Inr y
       \<and> transpose y (Some (inverse_perm [1, 2, 0])) True = Inr z
       \<and> indices z = indices ex_tensor \<and> blocks z = blocks ex_tensor
       \<and> map_of (phases z) = map_of (phases ex_tensor)"
    by blast
  then have "transpose ex_tensor (Some [1, 2, 0]) True = Inr y
          \<and> transpose y (Some [2, 0, 1]) True = Inr z
          \<and> indices z = indices ex_tensor \<and> blocks z = blocks ex_tensor
          \<and> map_of (phases z) = map_of (phases ex_tensor)"
    by (simp only: i)
  then have "\<exists>y z. transpose ex_tensor (Some [1, 2, 0]) True = Inr y
          \<and> transpose y (Some [2, 0, 1]) True = Inr z
          \<and> indices z = indices ex_tensor \<and> blocks z = blocks ex_tensor
          \<and> map_of (phases z) = map_of (phases ex_tensor)"
    by (rule_tac x = y in exI, rule_tac x = z in exI)
  with h i show ?thesis by (simp only: simp_thms)
qed

text \<open>
  C2: the docstring of \<open>conj\<close> promises
  \<open>tensordot_fermionic(x.conj(), x, ndim) == tensordot_fermionic(x, x.conj(), ndim)\<close>.
  On the odd vector \<open>ex_vector\<close> the code returns the scalar \<open>1\<close> for the first
  contraction and \<open>-1\<close> for the second: both operands have the same element count, so
  \<open>tensordot_fermionic\<close> always flips the bra axes of its first operand, which cancels the
  \<open>-1\<close> that \<open>conj\<close> buffered when the conjugate comes first and leaves it in place when
  the conjugate comes second.
\<close>

theorem conj_tensordot_order_differs:
  "conj ex_vector True = Inr ex_vector_conj
   \<and> tensordot_fermionic ex_vector_conj ex_vector (AxesInt (int (ndim ex_vector)))
       = Inr (ex_scalar 1)
   \<and> tensordot_fermionic ex_vector ex_vector_conj (AxesInt (int (ndim ex_vector)))
       = Inr (ex_scalar (- 1))
   \<and> block_at (snd (hd (blocks (ex_scalar 1)))) [] = 1
   \<and> block_at (snd (hd (blocks (ex_scalar (- 1))))) [] = - 1"
  by code_simp

text \<open>
  C5: in \<open>fuse\<close>, the loop over the groups collects the axes whose flow disagrees with
  the leading axis only under \<open>if new.indices[group[0]].flow\<close>; a group led by a ket
  axis has no branch. On \<open>ex_ket_bra\<close>, fused over the group \<open>(0, 1)\<close>, the second axis
  disagrees with the first, yet the array handed to the fuse of \<open>SymmetricArray\<close> is the
  input itself, while a \<open>phase_flip\<close> of that axis would negate the odd block. On a group
  led by a bra axis (\<open>ex_bra_ket\<close>) the loop does collect the disagreeing axis and the
  reversal of the group.
\<close>

theorem fuse_ket_led_group_not_flipped:
  "flows ex_ket_bra = [False, True]
   \<and> fuse (\<lambda>groups fl. [0, 1]) (\<lambda>new groups. Inr (new, groups)) ex_ket_bra [[0, 1]]
       = Inr (ex_ket_bra, [[0, 1]])
   \<and> and_then (phase_flip ex_ket_bra [1]) phase_resolve
       = Inr (ex_ket_bra\<lparr>blocks := [([0, 0], [([0, 0], 2)]), ([1, 1], [([0, 0], - 3)])]\<rparr>)
   \<and> flows ex_bra_ket = [True, False]
   \<and> fuse_groups ex_bra_ket [[0, 1]] [] None = Inr ([1], Some [1, 0])"
  by code_simp


lemma map_res_py_mod_Nil: "map_res (\<lambda>x. py_mod x n) [] = Inr []"
  by simp

lemma length_py_range: "length (py_range a b) = nat (b - a)"
  by (simp add: py_range_def)

lemma set_py_range: "set (py_range a b) = {a..<b}"
  by (auto simp: py_range_def)

lemma distinct_py_range: "distinct (py_range a b)"
  by (simp add: py_range_def)

lemma tensordot_axes_length:
  "tensordot_axes na nb axes = Inr (axes_a, axes_b) \<Longrightarrow> length axes_a = length axes_b"
  by (cases axes)
    (auto simp: tensordot_axes_def and_then_eq_Inr length_py_range split: if_splits)

lemma length_without:
  assumes "axes_ok n axes"
  shows "length (without (py_range 0 (int n)) axes) + length axes = n"
proof -
  let ?r = "py_range 0 (int n)"
  have sub: "set axes \<subseteq> set ?r"
    using assms by (auto simp: axes_ok_def list_all_iff set_py_range)
  have "length (filter (\<lambda>i. i \<in> set axes) ?r) = card ({i. i \<in> set axes} \<inter> set ?r)"
    by (rule distinct_length_filter) (rule distinct_py_range)
  also have "{i. i \<in> set axes} \<inter> set ?r = set axes" using sub by auto
  also have "card (set axes) = length axes"
    using assms by (simp add: axes_ok_def distinct_card)
  finally have 1: "length (filter (\<lambda>i. i \<in> set axes) ?r) = length axes" .
  have "length (filter (\<lambda>i. i \<in> set axes) ?r) + length (filter (\<lambda>i. \<not> i \<in> set axes) ?r)
          = length ?r"
    by (rule sum_length_filter_compl)
  with 1 show ?thesis by (simp add: without_def length_py_range)
qed

lemma valid_perm_left:
  assumes "axes_ok n axes"
  shows "valid_perm n (without (py_range 0 (int n)) axes @ axes)"
  using assms length_without [OF assms]
  by (auto simp: valid_perm_def axes_ok_def without_def distinct_py_range list_all_iff
      set_py_range)

lemma valid_perm_right:
  assumes "axes_ok n axes"
  shows "valid_perm n (axes @ without (py_range 0 (int n)) axes)"
  using assms length_without [OF assms]
  by (auto simp: valid_perm_def axes_ok_def without_def distinct_py_range list_all_iff
      set_py_range)

lemma valid_perm_virtual:
  assumes "k \<le> n"
  shows "valid_perm n (rev (py_range 0 (int k)) @ py_range (int k) (int n))"
  using assms
  by (auto simp: valid_perm_def distinct_py_range list_all_iff set_py_range length_py_range)

lemma axes_if_flow_closed:
  assumes "list_all (\<lambda>ax. 0 \<le> ax \<and> ax < int (length ixs)) axs"
  shows "axes_if_flow f ixs axs = Inr (filter (\<lambda>ax. flow (ixs ! nat ax) = f) axs)"
  using assms
  by (induction axs) (simp_all add: py_nth_def norm_axis_in_range)

lemma phase_flip_loop_total:
  assumes "list_all (\<lambda>ax. 0 \<le> ax \<and> ax < int n) axs" and "\<forall>s\<in>set ss. length s = n"
  shows "\<exists>r. phase_flip_loop symm axs ss ps = Inr r"
  using assms(2)
proof (induction ss arbitrary: ps)
  case Nil
  then show ?case by simp
next
  case (Cons s ss)
  have "map_res (\<lambda>ax. and_then (py_nth s ax) (\<lambda>q. Inr (parity symm q))) axs
          = Inr (map (\<lambda>ax. parity symm (s ! nat ax)) axs)"
    using assms(1) Cons.prems
    by (intro map_res_total) (simp add: py_nth_def norm_axis_in_range list_all_iff)
  with Cons show ?case by (simp add: Let_def)
qed

lemma phase_flip_total:
  assumes "wf_array x" and "list_all (\<lambda>ax. 0 \<le> ax \<and> ax < int (ndim x)) axs"
  shows "\<exists>r. phase_flip x axs = Inr (x\<lparr>phases := r\<rparr>)"
proof (cases "axs = []")
  case True
  have "phase_flip x axs = Inr (x\<lparr>phases := phases x\<rparr>)"
    using True by (simp add: phase_flip_def)
  then show ?thesis by (rule exI)
next
  case False
  have "\<forall>s\<in>set (sectors x). length s = ndim x"
    using assms(1) by (simp add: wf_array_def list_all_iff)
  from phase_flip_loop_total [OF assms(2) this]
  obtain r where "phase_flip_loop (symmetry x) axs (sectors x) (phases x) = Inr r" by blast
  with False have "phase_flip x axs = Inr (x\<lparr>phases := r\<rparr>)"
    by (simp add: phase_flip_def)
  then show ?thesis by (rule exI)
qed

lemma wf_array_phases [simp]: "wf_array (x\<lparr>phases := r\<rparr>) = wf_array x"
  by (simp add: wf_array_def sectors_def ndim_def)

lemma ndim_phases [simp]: "ndim (x\<lparr>phases := r\<rparr>) = ndim x"
  by (simp add: ndim_def)

lemma array_size_phases [simp]: "array_size (x\<lparr>phases := r\<rparr>) = array_size x"
  by (simp add: array_size_def)

lemma transpose_stage:
  assumes p: "valid_perm (ndim x) p" and wf: "wf_array x" and ok: "phases_ok x"
  shows "\<exists>y. transpose x (Some p) True = Inr y \<and> wf_array y \<and> phases_ok y
           \<and> ndim y = ndim x \<and> indices y = take_axes (indices x) p"
proof -
  let ?ps = "map (\<lambda>s. (take_axes s p, - 1 :: int))
               (filter (\<lambda>s. sector_phase x s * perm_phase (symmetry x) s (Some p) = - 1)
                  (sectors x))"
  let ?y = "x\<lparr>indices := take_axes (indices x) p,
               blocks := map (\<lambda>(s, b). (take_axes s p, block_take_axes b p)) (blocks x),
               phases := ?ps\<rparr>"
  have t: "transpose x (Some p) True = Inr ?y" by (rule transpose_closed_True [OF p wf])
  have 1: "ndim ?y = ndim x" and 2: "wf_array ?y"
    by (rule wf_array_transposed [OF p wf])+
  have 3: "phases_ok ?y" using ok t by (rule transpose_preserves)
  have 4: "indices ?y = take_axes (indices x) p" by simp
  from t 1 2 3 4 show ?thesis by (rule_tac x = ?y in exI) (simp only: simp_thms)
qed

lemma virtual_stage:
  assumes p: "valid_perm (ndim x) p" and wf: "wf_array x" and ok: "phases_ok x"
  shows "\<exists>r. phase_virtual_transpose x (Some p) = Inr (x\<lparr>phases := r\<rparr>)
           \<and> phases_ok (x\<lparr>phases := r\<rparr>)"
proof -
  have rng: "list_all (\<lambda>a. 0 \<le> a \<and> a < int (ndim x)) p"
    using p by (simp add: valid_perm_def)
  have len: "\<forall>s\<in>set (sectors x). length s = ndim x"
    using wf by (simp add: wf_array_def list_all_iff)
  obtain r where
    r: "phase_virtual_transpose_loop (symmetry x) (Some p) (sectors x) (phases x) = Inr r"
    using phase_virtual_transpose_loop_total [OF rng len] by blast
  then have y: "phase_virtual_transpose x (Some p) = Inr (x\<lparr>phases := r\<rparr>)"
    by (simp add: phase_virtual_transpose_def)
  from ok y have "phases_ok (x\<lparr>phases := r\<rparr>)" by (rule phase_virtual_transpose_preserves)
  with y show ?thesis by (rule_tac x = r in exI) (simp only: simp_thms)
qed

lemma flip_stage:
  assumes wf: "wf_array x" and ok: "phases_ok x"
    and rng: "list_all (\<lambda>ax. 0 \<le> ax \<and> ax < int (ndim x)) axs"
  shows "\<exists>r. phase_flip x axs = Inr (x\<lparr>phases := r\<rparr>) \<and> phases_ok (x\<lparr>phases := r\<rparr>)"
proof -
  obtain r where y: "phase_flip x axs = Inr (x\<lparr>phases := r\<rparr>)"
    using phase_flip_total [OF wf rng] by blast
  from ok y have "phases_ok (x\<lparr>phases := r\<rparr>)" by (rule phase_flip_preserves)
  with y show ?thesis by (rule_tac x = r in exI) (simp only: simp_thms)
qed

lemma resolve_stage:
  assumes wf: "wf_array x" and ok: "phases_ok x"
  shows "\<exists>y. phase_resolve x = Inr y \<and> phases y = [] \<and> indices y = indices x
           \<and> symmetry y = symmetry x \<and> charge_total y = charge_total x
           \<and> blocks y = resolved_blocks (phases x) (blocks x)"
proof -
  have 1: "distinct (map fst (phases x))" using ok by (simp add: phases_ok_def)
  have 2: "distinct (map fst (blocks x))" using wf by (simp add: wf_array_def sectors_def)
  have 3: "fst ` set (phases x) \<subseteq> fst ` set (blocks x)"
    using ok by (force simp: phases_ok_def list_all_iff sectors_def)
  let ?y = "x\<lparr>blocks := resolved_blocks (phases x) (blocks x), phases := []\<rparr>"
  have "phase_resolve x = Inr ?y" by (rule phase_resolve_closed [OF 1 2 3])
  then show ?thesis by (rule_tac x = ?y in exI) simp
qed

lemma tensordot_symmetric_total:
  assumes "length na = length nb"
    and "list_all (\<lambda>ax. 0 \<le> ax \<and> ax < int (ndim x)) na"
    and "list_all (\<lambda>ax. 0 \<le> ax \<and> ax < int (ndim y)) nb"
  shows "\<exists>c. tensordot_symmetric x y (na, nb) = Inr c"
  using assms by (simp add: tensordot_symmetric_def)

lemma tensordot_flip_stage:
  assumes wfa: "wf_array a" and oka: "phases_ok a" and wfb: "wf_array b" and okb: "phases_ok b"
    and ra: "list_all (\<lambda>ax. 0 \<le> ax \<and> ax < int (ndim a)) na"
    and rb: "list_all (\<lambda>ax. 0 \<le> ax \<and> ax < int (ndim b)) nb"
  shows "\<exists>a3 b3. tensordot_flip a b na nb = Inr (a3, b3)
           \<and> (if array_size a \<le> array_size b
               then phase_flip a (filter (\<lambda>ax. flow (indices a ! nat ax)) na) = Inr a3 \<and> b3 = b
               else a3 = a
                 \<and> phase_flip b (filter (\<lambda>ax. \<not> flow (indices b ! nat ax)) nb) = Inr b3)
           \<and> wf_array a3 \<and> phases_ok a3 \<and> wf_array b3 \<and> phases_ok b3
           \<and> ndim a3 = ndim a \<and> ndim b3 = ndim b"
proof (cases "array_size a \<le> array_size b")
  case True
  let ?axs = "filter (\<lambda>ax. flow (indices a ! nat ax)) na"
  have f: "axes_if_flow True (indices a) na = Inr ?axs"
    using axes_if_flow_closed [of "indices a" na True] ra by (simp add: ndim_def)
  have "list_all (\<lambda>ax. 0 \<le> ax \<and> ax < int (ndim a)) ?axs"
    using ra by (simp add: list_all_iff)
  from flip_stage [OF wfa oka this] obtain r where
    r: "phase_flip a ?axs = Inr (a\<lparr>phases := r\<rparr>)" and okr: "phases_ok (a\<lparr>phases := r\<rparr>)"
    by blast
  have "tensordot_flip a b na nb = Inr (a\<lparr>phases := r\<rparr>, b)"
    using True f r by (simp add: tensordot_flip_def)
  with True r okr wfa wfb okb show ?thesis
    by (rule_tac x = "a\<lparr>phases := r\<rparr>" in exI, rule_tac x = b in exI) simp
next
  case False
  let ?axs = "filter (\<lambda>ax. \<not> flow (indices b ! nat ax)) nb"
  have f: "axes_if_flow False (indices b) nb = Inr ?axs"
    using axes_if_flow_closed [of "indices b" nb False] rb by (simp add: ndim_def)
  have "list_all (\<lambda>ax. 0 \<le> ax \<and> ax < int (ndim b)) ?axs"
    using rb by (simp add: list_all_iff)
  from flip_stage [OF wfb okb this] obtain r where
    r: "phase_flip b ?axs = Inr (b\<lparr>phases := r\<rparr>)" and okr: "phases_ok (b\<lparr>phases := r\<rparr>)"
    by blast
  have "tensordot_flip a b na nb = Inr (a, b\<lparr>phases := r\<rparr>)"
    using False f r by (simp add: tensordot_flip_def)
  with False r okr wfa wfb oka show ?thesis
    by (rule_tac x = a in exI, rule_tac x = "b\<lparr>phases := r\<rparr>" in exI) simp
qed

lemma axes_ok_length: "axes_ok n axes \<Longrightarrow> length axes \<le> n"
  using length_without [of n axes] by simp

lemma tensordot_fermionic_stages:
  assumes wfa: "wf_array a" and oka: "phases_ok a" and wfb: "wf_array b" and okb: "phases_ok b"
    and ax: "tensordot_axes (ndim a) (ndim b) axes = Inr (axes_a, axes_b)"
    and xa: "axes_ok (ndim a) axes_a" and xb: "axes_ok (ndim b) axes_b"
  shows "\<exists>a1 b1 b2 a3 b3 a4 b4 c.
       transpose a (Some (without (py_range 0 (int (ndim a))) axes_a @ axes_a)) True = Inr a1
     \<and> transpose b (Some (axes_b @ without (py_range 0 (int (ndim b))) axes_b)) True = Inr b1
     \<and> phase_virtual_transpose b1
          (Some (rev (py_range 0 (int (length axes_a)))
                 @ py_range (int (length axes_a)) (int (ndim b1)))) = Inr b2
     \<and> indices b2 = indices b1 \<and> blocks b2 = blocks b1
     \<and> (if array_size a1 \<le> array_size b2
         then phase_flip a1 (filter (\<lambda>ax. flow (indices a1 ! nat ax))
                 (py_range (int (ndim a) - int (length axes_a)) (int (ndim a)))) = Inr a3
              \<and> b3 = b2
         else a3 = a1
              \<and> phase_flip b2 (filter (\<lambda>ax. \<not> flow (indices b2 ! nat ax))
                   (py_range 0 (int (length axes_a)))) = Inr b3)
     \<and> phase_resolve a3 = Inr a4 \<and> phases a4 = []
     \<and> phase_resolve b3 = Inr b4 \<and> phases b4 = []
     \<and> tensordot_symmetric a4 b4
          (py_range (int (ndim a) - int (length axes_a)) (int (ndim a)),
           py_range 0 (int (length axes_a))) = Inr c
     \<and> tensordot_fermionic a b axes = Inr c"
proof -
  let ?pa = "without (py_range 0 (int (ndim a))) axes_a @ axes_a"
  let ?pb = "axes_b @ without (py_range 0 (int (ndim b))) axes_b"
  let ?k = "length axes_a"
  let ?na = "py_range (int (ndim a) - int ?k) (int (ndim a))"
  let ?nb = "py_range 0 (int ?k)"
  have len: "length axes_a = length axes_b" using ax by (rule tensordot_axes_length)
  have ka: "?k \<le> ndim a" using xa by (rule axes_ok_length)
  have kb: "?k \<le> ndim b" using xb len by (simp add: axes_ok_length)
  obtain a1 where a1: "transpose a (Some ?pa) True = Inr a1"
    and wfa1: "wf_array a1" and oka1: "phases_ok a1" and na1: "ndim a1 = ndim a"
    using transpose_stage [OF valid_perm_left [OF xa] wfa oka] by blast
  obtain b1 where b1: "transpose b (Some ?pb) True = Inr b1"
    and wfb1: "wf_array b1" and okb1: "phases_ok b1" and nb1: "ndim b1 = ndim b"
    using transpose_stage [OF valid_perm_right [OF xb] wfb okb] by blast
  let ?vp = "rev (py_range 0 (int ?k)) @ py_range (int ?k) (int (ndim b1))"
  have vp: "valid_perm (ndim b1) ?vp" using kb nb1 by (simp add: valid_perm_virtual)
  obtain r where b2: "phase_virtual_transpose b1 (Some ?vp) = Inr (b1\<lparr>phases := r\<rparr>)"
    and okb2: "phases_ok (b1\<lparr>phases := r\<rparr>)"
    using virtual_stage [OF vp wfb1 okb1] by blast
  let ?b2 = "b1\<lparr>phases := r\<rparr>"
  have wfb2: "wf_array ?b2" using wfb1 by simp
  have ra: "list_all (\<lambda>ax. 0 \<le> ax \<and> ax < int (ndim a1)) ?na"
    using ka na1 by (simp add: list_all_iff set_py_range)
  have rb: "list_all (\<lambda>ax. 0 \<le> ax \<and> ax < int (ndim ?b2)) ?nb"
    using kb nb1 by (simp add: list_all_iff set_py_range)
  obtain a3 b3 where fl: "tensordot_flip a1 ?b2 ?na ?nb = Inr (a3, b3)"
    and br: "if array_size a1 \<le> array_size ?b2
             then phase_flip a1 (filter (\<lambda>ax. flow (indices a1 ! nat ax)) ?na) = Inr a3
                  \<and> b3 = ?b2
             else a3 = a1
                  \<and> phase_flip ?b2 (filter (\<lambda>ax. \<not> flow (indices ?b2 ! nat ax)) ?nb) = Inr b3"
    and wfa3: "wf_array a3" and oka3: "phases_ok a3"
    and wfb3: "wf_array b3" and okb3: "phases_ok b3"
    and na3: "ndim a3 = ndim a1" and nb3: "ndim b3 = ndim ?b2"
    using tensordot_flip_stage [OF wfa1 oka1 wfb2 okb2 ra rb] by blast
  obtain a4 where a4: "phase_resolve a3 = Inr a4" and pa4: "phases a4 = []"
    and ia4: "indices a4 = indices a3"
    using resolve_stage [OF wfa3 oka3] by blast
  obtain b4 where b4: "phase_resolve b3 = Inr b4" and pb4: "phases b4 = []"
    and ib4: "indices b4 = indices b3"
    using resolve_stage [OF wfb3 okb3] by blast
  have na4: "ndim a4 = ndim a" using ia4 na3 na1 by (simp add: ndim_def)
  have nb4: "ndim b4 = ndim b" using ib4 nb3 nb1 by (simp add: ndim_def)
  have "length ?na = length ?nb" using ka by (simp add: length_py_range)
  moreover have "list_all (\<lambda>ax. 0 \<le> ax \<and> ax < int (ndim a4)) ?na"
    using ka na4 by (simp add: list_all_iff set_py_range)
  moreover have "list_all (\<lambda>ax. 0 \<le> ax \<and> ax < int (ndim b4)) ?nb"
    using kb nb4 by (simp add: list_all_iff set_py_range)
  ultimately obtain c where c: "tensordot_symmetric a4 b4 (?na, ?nb) = Inr c"
    using tensordot_symmetric_total by blast
  have td: "tensordot_fermionic a b axes = Inr c"
    unfolding tensordot_fermionic_def Let_def
    by (simp only: ax and_then_Inr prod.case a1 b1 b2 fl a4 b4 c)
  have ib2: "indices ?b2 = indices b1" "blocks ?b2 = blocks b1" by simp_all
  from a1 b1 b2 ib2 br a4 pa4 b4 pb4 c td show ?thesis
    by (rule_tac x = a1 in exI, rule_tac x = b1 in exI, rule_tac x = ?b2 in exI,
        rule_tac x = a3 in exI, rule_tac x = b3 in exI, rule_tac x = a4 in exI,
        rule_tac x = b4 in exI, rule_tac x = c in exI) (simp only: simp_thms)
qed

text \<open>
  C1, as stated, fails on the code. In the contraction of axis 1 of \<open>ex_ket_bra\<close> with
  axis 0 of \<open>ex_vector\<close> the second operand is the smaller one and its contracted axis
  is a ket (\<open>flow=False\<close>), so the procedure of the spec flips nothing and returns \<open>3\<close>;
  the code flips that axis (\<open>if not b.indices[ax].flow\<close>) and returns \<open>-3\<close>.
\<close>

theorem tensordot_flip_not_on_dual_axes:
  "array_size ex_vector < array_size ex_ket_bra
   \<and> flows ex_vector = [False]
   \<and> tensordot_fermionic ex_ket_bra ex_vector (AxesPair [1] [0]) = Inr (ex_contracted (- 3))
   \<and> tensordot_fermionic_spec ex_ket_bra ex_vector (AxesPair [1] [0]) = Inr (ex_contracted 3)
   \<and> block_at (snd (hd (blocks (ex_contracted (- 3))))) [0] = - 3
   \<and> block_at (snd (hd (blocks (ex_contracted 3)))) [0] = 3"
  by code_simp

text \<open>
  C1, amended: for operands with the shape and the phase invariant of a FermionicArray
  and contracted axes that are distinct and in range (given as an integer or as a pair
  of lists), \<open>tensordot_fermionic\<close> runs these stages, each of which returns: the phased
  transpose of \<open>a\<close> to \<open>[uncontracted_a..., contracted_a...]\<close> and of \<open>b\<close> to
  \<open>[contracted_b..., uncontracted_b...]\<close>; the virtual reversal of the contracted axes
  of \<open>b\<close>, which leaves indices and blocks as they are; \<open>phase_flip\<close> on the contracted
  axes of \<open>a\<close> with \<open>flow=True\<close> when \<open>a\<close> has at most as many elements as \<open>b\<close>, and
  otherwise on the contracted axes of \<open>b\<close> with \<open>flow=False\<close>; \<open>phase_resolve\<close> of both
  operands, which leaves both phase dictionaries empty; and the symmetric contraction of
  the two resolved arrays over the last axes of \<open>a\<close> and the first axes of \<open>b\<close>, whose
  result is the result of \<open>tensordot_fermionic\<close>.
\<close>

theorem tensordot_fermionic_staged:
  assumes "wf_array a" and "phases_ok a" and "wf_array b" and "phases_ok b"
    and "tensordot_axes (ndim a) (ndim b) axes = Inr (axes_a, axes_b)"
    and "axes_ok (ndim a) axes_a" and "axes_ok (ndim b) axes_b"
  shows "\<exists>a1 b1 b2 a3 b3 a4 b4 c.
       transpose a (Some (without (py_range 0 (int (ndim a))) axes_a @ axes_a)) True = Inr a1
     \<and> transpose b (Some (axes_b @ without (py_range 0 (int (ndim b))) axes_b)) True = Inr b1
     \<and> phase_virtual_transpose b1
          (Some (rev (py_range 0 (int (length axes_a)))
                 @ py_range (int (length axes_a)) (int (ndim b1)))) = Inr b2
     \<and> indices b2 = indices b1 \<and> blocks b2 = blocks b1
     \<and> (if array_size a1 \<le> array_size b2
         then phase_flip a1 (filter (\<lambda>ax. flow (indices a1 ! nat ax))
                 (py_range (int (ndim a) - int (length axes_a)) (int (ndim a)))) = Inr a3
              \<and> b3 = b2
         else a3 = a1
              \<and> phase_flip b2 (filter (\<lambda>ax. \<not> flow (indices b2 ! nat ax))
                   (py_range 0 (int (length axes_a)))) = Inr b3)
     \<and> phase_resolve a3 = Inr a4 \<and> phases a4 = []
     \<and> phase_resolve b3 = Inr b4 \<and> phases b4 = []
     \<and> tensordot_symmetric a4 b4
          (py_range (int (ndim a) - int (length axes_a)) (int (ndim a)),
           py_range 0 (int (length axes_a))) = Inr c
     \<and> tensordot_fermionic a b axes = Inr c"
  using assms by (rule tensordot_fermionic_stages)

text \<open>
  The hypotheses of C1 hold of \<open>ex_ket_bra\<close>, \<open>ex_vector\<close> and the axes \<open>([1], [0])\<close>,
  where the second operand is the smaller one and takes the flip.
\<close>

theorem tensordot_fermionic_staged_witness:
  "wf_array ex_ket_bra \<and> phases_ok ex_ket_bra \<and> wf_array ex_vector \<and> phases_ok ex_vector
   \<and> tensordot_axes (ndim ex_ket_bra) (ndim ex_vector) (AxesPair [1] [0]) = Inr ([1], [0])
   \<and> axes_ok (ndim ex_ket_bra) [1] \<and> axes_ok (ndim ex_vector) [0]
   \<and> (\<exists>a1 b1 b2 b3 b4 c.
         transpose ex_ket_bra (Some [0, 1]) True = Inr a1
       \<and> transpose ex_vector (Some [0]) True = Inr b1
       \<and> phase_virtual_transpose b1 (Some [0]) = Inr b2
       \<and> \<not> array_size a1 \<le> array_size b2
       \<and> phase_flip b2 [0] = Inr b3
       \<and> phase_resolve b3 = Inr b4
       \<and> tensordot_symmetric a1 b4 ([1], [0]) = Inr c
       \<and> tensordot_fermionic ex_ket_bra ex_vector (AxesPair [1] [0]) = Inr c)"
proof -
  have h: "wf_array ex_ket_bra" "phases_ok ex_ket_bra" "wf_array ex_vector"
    "phases_ok ex_vector"
    "tensordot_axes (ndim ex_ket_bra) (ndim ex_vector) (AxesPair [1] [0]) = Inr ([1], [0])"
    "axes_ok (ndim ex_ket_bra) [1]" "axes_ok (ndim ex_vector) [0]"
    by (simp_all add: wf_array_def phases_ok_def ex_ket_bra_def ex_vector_def ndim_def
        sectors_def tensordot_axes_def py_mod_def axes_ok_def)
  have e: "without (py_range 0 (int (ndim ex_ket_bra))) [1] @ [1] = [0, 1]"
    "[0] @ without (py_range 0 (int (ndim ex_vector))) [0] = [0]"
    "int (length [1 :: int]) = 1"
    "py_range (int (ndim ex_ket_bra) - 1) (int (ndim ex_ket_bra)) = [1]"
    "py_range 0 1 = [0]"
    by (simp_all add: without_def py_range_def ex_ket_bra_def ex_vector_def ndim_def
        upto.simps)
  have t: "transpose ex_ket_bra (Some [0, 1]) True = Inr ex_ket_bra"
    "transpose ex_vector (Some [0]) True = Inr ex_vector"
    "phase_virtual_transpose ex_vector (Some [0]) = Inr ex_vector"
    "\<not> array_size ex_ket_bra \<le> array_size ex_vector"
    "phase_flip ex_vector [0] = Inr (ex_vector\<lparr>phases := [([1], - 1)]\<rparr>)"
    by code_simp+
  from tensordot_fermionic_staged [OF h] obtain a1 b1 b2 a3 b3 a4 b4 c where
    s: "transpose ex_ket_bra (Some (without (py_range 0 (int (ndim ex_ket_bra))) [1] @ [1])) True
          = Inr a1"
      "transpose ex_vector (Some ([0] @ without (py_range 0 (int (ndim ex_vector))) [0])) True
          = Inr b1"
      "phase_virtual_transpose b1
          (Some (rev (py_range 0 (int (length [1 :: int])))
                 @ py_range (int (length [1 :: int])) (int (ndim b1)))) = Inr b2"
      "if array_size a1 \<le> array_size b2
         then phase_flip a1 (filter (\<lambda>ax. flow (indices a1 ! nat ax))
                 (py_range (int (ndim ex_ket_bra) - int (length [1 :: int]))
                    (int (ndim ex_ket_bra)))) = Inr a3
              \<and> b3 = b2
         else a3 = a1
              \<and> phase_flip b2 (filter (\<lambda>ax. \<not> flow (indices b2 ! nat ax))
                   (py_range 0 (int (length [1 :: int])))) = Inr b3"
      "phase_resolve a3 = Inr a4" "phase_resolve b3 = Inr b4"
      "tensordot_symmetric a4 b4
          (py_range (int (ndim ex_ket_bra) - int (length [1 :: int])) (int (ndim ex_ket_bra)),
           py_range 0 (int (length [1 :: int]))) = Inr c"
      "tensordot_fermionic ex_ket_bra ex_vector (AxesPair [1] [0]) = Inr c"
    by blast
  have a1: "a1 = ex_ket_bra" using s(1) t(1) by (simp only: e sum.inject)
  have b1: "b1 = ex_vector" using s(2) t(2) by (simp only: e sum.inject)
  have vp: "py_range 1 (int (ndim ex_vector)) = []"
    by (simp add: py_range_def ex_vector_def ndim_def)
  have b2: "b2 = ex_vector" using s(3) unfolding b1 e vp by (simp add: t(3))
  have fl: "filter (\<lambda>ax. \<not> flow (indices ex_vector ! nat ax)) [0] = [0]"
    by (simp add: ex_vector_def ex_index_def)
  have br: "a3 = ex_ket_bra" "phase_flip ex_vector [0] = Inr b3"
    using s(4) t(4) unfolding a1 b2 e fl by (simp_all only: if_False)
  have a4: "a4 = ex_ket_bra"
  proof -
    have "phase_resolve ex_ket_bra = Inr ex_ket_bra"
      by (rule phase_resolve_empty) (simp add: ex_ket_bra_def)
    with s(5) show ?thesis unfolding br(1) by (simp only: sum.inject)
  qed
  from s(6) s(7) s(8) a4 e have
    r: "phase_resolve b3 = Inr b4" "tensordot_symmetric ex_ket_bra b4 ([1], [0]) = Inr c"
      "tensordot_fermionic ex_ket_bra ex_vector (AxesPair [1] [0]) = Inr c"
    by simp_all
  from h t(1-4) br(2) r show ?thesis
    by (intro conjI, simp_all only: simp_thms)
      (rule_tac x = ex_ket_bra in exI, rule_tac x = ex_vector in exI,
        rule_tac x = ex_vector in exI, rule_tac x = b3 in exI, rule_tac x = b4 in exI,
        rule_tac x = c in exI, simp only: simp_thms)
qed










end
